theory Spec2Isabelle
  imports Main "HOL-Library.AList" "HOL-Library.Sublist"
begin

section \<open>JavaScript values used by the pipeline\<close>

text \<open>
  Strings are character lists over ASCII (identifiers and content paths). A thrown value is
  either an \<open>Error\<close> object with its message or some other value. An optional string is
  truthy when it is present and not empty.
\<close>

datatype thrown = ErrorObj string | NonError

definition truthy :: "string option \<Rightarrow> bool" where
  "truthy v = (case v of None \<Rightarrow> False | Some s \<Rightarrow> s \<noteq> [])"

text \<open>\<open>v || d\<close> on an optional string.\<close>

definition orElse :: "string option \<Rightarrow> string \<Rightarrow> string" where
  "orElse v d = (case v of None \<Rightarrow> d | Some s \<Rightarrow> (if s = [] then d else s))"

definition toUpperCase_char :: "char \<Rightarrow> char" where
  "toUpperCase_char c =
     (if 97 \<le> (of_char c :: nat) \<and> (of_char c :: nat) \<le> 122
      then char_of ((of_char c :: nat) - 32) else c)"

text \<open>
  \<open>String.prototype.toUpperCase\<close> on ASCII text: the letters \<open>a\<close> to \<open>z\<close> are mapped, every
  other character of the model is left as it is. JavaScript also maps letters outside ASCII,
  which the 8-bit characters used here cannot all express; identifiers made of hexadecimal
  digits, hyphens and braces hold none.
\<close>

definition toUpperCase :: "string \<Rightarrow> string" where
  "toUpperCase s = map toUpperCase_char s"

text \<open>\<open>s.replace(/[{}]/g, '').toUpperCase()\<close>: the canonical form of an identifier.\<close>

definition cleanGuid :: "string \<Rightarrow> string" where
  "cleanGuid s = toUpperCase (filter (\<lambda>c. c \<noteq> CHR ''{'' \<and> c \<noteq> CHR ''}'') s)"

text \<open>\<open>s.replace(pat, rep)\<close> with a string pattern: the first occurrence only.\<close>

fun replaceFirst :: "string \<Rightarrow> string \<Rightarrow> string \<Rightarrow> string" where
  "replaceFirst pat rep [] = (if pat = [] then rep else [])"
| "replaceFirst pat rep (c # cs) =
     (if prefix pat (c # cs) then rep @ drop (length pat) (c # cs)
      else c # replaceFirst pat rep cs)"

section \<open>GraphQL requests and responses\<close>

text \<open>
  A batched query is kept as its list of selections (alias index, looked-up value, language)
  instead of its text. The keys of a response object are the aliases \<open>item<i>\<close> and
  \<open>path<i>\<close>, or any other key. A response object is an association list in key order.
\<close>

datatype aliasKey = ItemAlias nat | PathAlias nat | OtherKey string

datatype gqlQuery =
    GetAuthoringItems "(nat \<times> string \<times> string) list"
  | GetLiveItems "(nat \<times> string \<times> string) list"
  | ResolveLocalDatasources "(nat \<times> string \<times> string) list"

record field =
  fname :: string
  fvalue :: "string option"

record item =
  itemId :: "string option"
  iname :: "string option"
  ipath :: "string option"
  fieldNodes :: "field list option"

text \<open>
  Fields of response objects are typed as the queries ask for them: strings where present,
  \<open>None\<close> for a missing or \<open>null\<close> member.
\<close>

type_synonym gqlData = "(aliasKey \<times> item option) list"

text \<open>
  \<open>ItemQueryResult\<close>: \<open>qdata\<close> is \<open>result?.data?.data\<close> when that is an object, \<open>qerror\<close> the
  \<open>error\<close> member.
\<close>

record queryResult =
  qdata :: "gqlData option"
  qerror :: "thrown option"

record request =
  endpoint :: string
  contextParam :: "string option"
  body :: gqlQuery

text \<open>
  The SDK client over an explicit world \<open>'w\<close>: every call takes the world and returns the
  new one with either a thrown value or the answer.
\<close>

record ('w, 'pc, 'ac) clientSDK =
  mutate :: "'w \<Rightarrow> request \<Rightarrow> (thrown + queryResult) \<times> 'w"
  queryPagesContext :: "'w \<Rightarrow> (thrown + 'pc) \<times> 'w"
  queryApplicationContext :: "'w \<Rightarrow> (thrown + 'ac) \<times> 'w"

section \<open>resolveLocalDatasourcePaths\<close>

type_synonym resolved = "(string \<times> string option) list"

definition pathStrategies :: "(string \<Rightarrow> string \<Rightarrow> string) list" where
  "pathStrategies =
     [\<lambda>localPath basePath. basePath @ ''/'' @ localPath,
      \<lambda>localPath basePath. basePath @ ''/Data/'' @ localPath,
      \<lambda>localPath basePath. basePath @ ''/'' @ replaceFirst ''Page Components/'' [] localPath,
      \<lambda>localPath basePath. basePath @ ''/Data/'' @ replaceFirst ''Page Components/'' [] localPath]"

subsection \<open>Plain objects used as maps\<close>

text \<open>
  \<open>Record<string, string | null>\<close> is a plain JavaScript object. It is kept as the list of
  its own properties in the order \<open>Object.values\<close> and the spread enumerate them: the keys
  that are array indices (canonical decimal numerals below \<open>2^32 - 1\<close>) first, in ascending
  numeric order, then the other keys in the order of their creation. Two canonical numerals
  are compared as numbers by their lengths and, at equal length, digit by digit.
\<close>

definition isDigit :: "char \<Rightarrow> bool" where
  "isDigit c = (48 \<le> (of_char c :: nat) \<and> (of_char c :: nat) \<le> 57)"

fun digitsLess :: "string \<Rightarrow> string \<Rightarrow> bool" where
  "digitsLess [] ys = False"
| "digitsLess (x # xs) [] = False"
| "digitsLess (x # xs) (y # ys) =
     ((of_char x :: nat) < of_char y \<or> (x = y \<and> digitsLess xs ys))"

definition indexLess :: "string \<Rightarrow> string \<Rightarrow> bool" where
  "indexLess a b = (length a < length b \<or> (length a = length b \<and> digitsLess a b))"

definition isArrayIndex :: "string \<Rightarrow> bool" where
  "isArrayIndex s =
     (s \<noteq> [] \<and> list_all isDigit s \<and> (s = ''0'' \<or> hd s \<noteq> CHR ''0'') \<and>
      indexLess s ''4294967295'')"

text \<open>A new array-index key goes before the first key that is no smaller index.\<close>

fun placeIndex :: "string \<Rightarrow> 'v \<Rightarrow> (string \<times> 'v) list \<Rightarrow> (string \<times> 'v) list" where
  "placeIndex k v [] = [(k, v)]"
| "placeIndex k v (e # rest) =
     (if isArrayIndex (fst e) \<and> indexLess (fst e) k
      then e # placeIndex k v rest else (k, v) # e # rest)"

text \<open>
  Creating or overwriting an own data property: an existing key keeps its place, a new key
  is placed as described above.
\<close>

definition objDefine :: "string \<Rightarrow> 'v \<Rightarrow> (string \<times> 'v) list \<Rightarrow> (string \<times> 'v) list" where
  "objDefine k v obj =
     (if isArrayIndex k \<and> k \<notin> set (map fst obj) then placeIndex k v obj
      else AList.update k v obj)"

text \<open>
  The assignment \<open>obj[k] = v\<close> on an object created by \<open>{}\<close>. The flag says whether the
  object's prototype has become \<open>null\<close>. While it has not, the key \<open>__proto__\<close> reaches the
  inherited setter: the value \<open>null\<close> (\<open>None\<close>) sets the prototype to \<open>null\<close>, a string is
  ignored, and no own property is created either way. Once the prototype is \<open>null\<close>,
  \<open>__proto__\<close> is a key like any other.
\<close>

definition objAssign ::
  "string \<Rightarrow> string option \<Rightarrow> (string \<times> string option) list \<times> bool \<Rightarrow>
   (string \<times> string option) list \<times> bool" where
  "objAssign k v = (\<lambda>(obj, nullProto).
     if k = ''__proto__'' \<and> \<not> nullProto then (obj, v = None)
     else (objDefine k v obj, nullProto))"

text \<open>
  \<open>{ ...a, ...b }\<close>: a new object with the own properties of \<open>a\<close> (in their order, which
  the list \<open>a\<close> already has), on which those of \<open>b\<close> are then defined (not assigned) in turn.
\<close>

definition spread :: "resolved \<Rightarrow> resolved \<Rightarrow> resolved" where
  "spread a b = fold (\<lambda>(k, v). objDefine k v) b a"

definition strategyRequest ::
  "string list \<Rightarrow> string \<Rightarrow> string \<Rightarrow> string \<Rightarrow> (string \<Rightarrow> string \<Rightarrow> string) \<Rightarrow> request" where
  "strategyRequest localPaths basePath sitecoreContextId language strategy =
     (let fullPaths = map (\<lambda>localPath. strategy localPath basePath) localPaths
      in \<lparr> endpoint = ''xmc.authoring.graphql'',
           contextParam = (if sitecoreContextId \<noteq> [] then Some sitecoreContextId else None),
           body = ResolveLocalDatasources
                    (map (\<lambda>(index, p). (index, p, language)) (enumerate 0 fullPaths)) \<rparr>)"

text \<open>
  One turn of the \<open>forEach\<close> over the local paths: the state is the object \<open>result\<close> (its
  own properties and whether its prototype is \<open>null\<close>) and \<open>foundItems\<close>.
\<close>

definition recordPath ::
  "gqlData \<Rightarrow> nat \<times> string \<Rightarrow> (resolved \<times> bool) \<times> nat \<Rightarrow> (resolved \<times> bool) \<times> nat" where
  "recordPath responseData = (\<lambda>(index, localPath) (result, foundItems).
     (case map_of responseData (PathAlias index) of
        Some (Some it) \<Rightarrow>
          (if truthy (itemId it)
           then (objAssign localPath (Some (cleanGuid (the (itemId it)))) result, Suc foundItems)
           else (objAssign localPath None result, foundItems))
      | _ \<Rightarrow> (objAssign localPath None result, foundItems)))"

definition strategyResult :: "string list \<Rightarrow> queryResult \<Rightarrow> resolved \<times> nat" where
  "strategyResult localPaths response =
     (case qdata response of
        None \<Rightarrow> ([], 0)
      | Some responseData \<Rightarrow>
          (case fold (recordPath responseData) (enumerate 0 localPaths) (([], False), 0) of
             ((result, nullProto), foundItems) \<Rightarrow> (result, foundItems)))"

text \<open>
  One strategy: the batched call, then \<open>None\<close> when it threw and the result with its count
  of found items otherwise. The request issued is returned beside the new world.
\<close>

definition attempt ::
  "('w, 'pc, 'ac) clientSDK \<Rightarrow> string list \<Rightarrow> string \<Rightarrow> string \<Rightarrow> string \<Rightarrow>
   (string \<Rightarrow> string \<Rightarrow> string) \<Rightarrow> 'w \<Rightarrow> (resolved \<times> nat) option \<times> 'w" where
  "attempt client localPaths basePath sitecoreContextId language strategy w =
     (case mutate client w (strategyRequest localPaths basePath sitecoreContextId language strategy) of
        (Inl e, w') \<Rightarrow> (None, w')
      | (Inr response, w') \<Rightarrow> (Some (strategyResult localPaths response), w'))"

text \<open>
  The \<open>for\<close> loop over the strategies, with the accumulator \<open>resolvedItems\<close> and the list of
  requests issued so far. It returns the map, the world and the requests issued.
\<close>

fun strategyLoop ::
  "('w, 'pc, 'ac) clientSDK \<Rightarrow> string list \<Rightarrow> string \<Rightarrow> string \<Rightarrow> string \<Rightarrow>
   (string \<Rightarrow> string \<Rightarrow> string) list \<Rightarrow> 'w \<Rightarrow> resolved \<Rightarrow> request list \<Rightarrow>
   resolved \<times> 'w \<times> request list" where
  "strategyLoop client localPaths basePath sitecoreContextId language [] w resolvedItems issued =
     (resolvedItems, w, issued)"
| "strategyLoop client localPaths basePath sitecoreContextId language (strategy # rest) w resolvedItems issued =
     (let issued' = issued @ [strategyRequest localPaths basePath sitecoreContextId language strategy]
      in case attempt client localPaths basePath sitecoreContextId language strategy w of
           (None, w') \<Rightarrow>
             strategyLoop client localPaths basePath sitecoreContextId language rest w' resolvedItems issued'
         | (Some (result, foundItems), w') \<Rightarrow>
             if foundItems = length localPaths then (result, w', issued')
             else strategyLoop client localPaths basePath sitecoreContextId language rest w'
                    (if foundItems > 0 then spread resolvedItems result else resolvedItems) issued')"

definition resolveLocalDatasourcePaths ::
  "('w, 'pc, 'ac) clientSDK option \<Rightarrow> string list \<Rightarrow> string \<Rightarrow> string \<Rightarrow> string \<Rightarrow> 'w \<Rightarrow>
   resolved \<times> 'w \<times> request list" where
  "resolveLocalDatasourcePaths client localPaths basePath sitecoreContextId language w =
     (case client of
        None \<Rightarrow> ([], w, [])
      | Some c \<Rightarrow>
          if localPaths = [] then ([], w, [])
          else strategyLoop c localPaths basePath sitecoreContextId language pathStrategies w [] [])"

text \<open>
  Observations of a run, for stating properties: the world after every strategy of a list
  has been tried in turn, the accumulator those strategies leave when none of them returns
  early, the world in which strategy \<open>k\<close> is tried, and what strategy \<open>k\<close> yields there.
\<close>

definition foundOf :: "(resolved \<times> nat) option \<Rightarrow> nat" where
  "foundOf r = (case r of None \<Rightarrow> 0 | Some rf \<Rightarrow> snd rf)"

definition resultOf :: "(resolved \<times> nat) option \<Rightarrow> resolved" where
  "resultOf r = (case r of None \<Rightarrow> [] | Some rf \<Rightarrow> fst rf)"

definition mergeFound :: "resolved \<Rightarrow> (resolved \<times> nat) option \<Rightarrow> resolved" where
  "mergeFound resolvedItems r =
     (if foundOf r > 0 then spread resolvedItems (resultOf r) else resolvedItems)"

fun worldAfter ::
  "('w, 'pc, 'ac) clientSDK \<Rightarrow> string list \<Rightarrow> string \<Rightarrow> string \<Rightarrow> string \<Rightarrow>
   (string \<Rightarrow> string \<Rightarrow> string) list \<Rightarrow> 'w \<Rightarrow> 'w" where
  "worldAfter client localPaths basePath sitecoreContextId language [] w = w"
| "worldAfter client localPaths basePath sitecoreContextId language (strategy # rest) w =
     worldAfter client localPaths basePath sitecoreContextId language rest
       (snd (attempt client localPaths basePath sitecoreContextId language strategy w))"

fun accAfter ::
  "('w, 'pc, 'ac) clientSDK \<Rightarrow> string list \<Rightarrow> string \<Rightarrow> string \<Rightarrow> string \<Rightarrow>
   (string \<Rightarrow> string \<Rightarrow> string) list \<Rightarrow> 'w \<Rightarrow> resolved \<Rightarrow> resolved" where
  "accAfter client localPaths basePath sitecoreContextId language [] w resolvedItems = resolvedItems"
| "accAfter client localPaths basePath sitecoreContextId language (strategy # rest) w resolvedItems =
     accAfter client localPaths basePath sitecoreContextId language rest
       (snd (attempt client localPaths basePath sitecoreContextId language strategy w))
       (mergeFound resolvedItems
          (fst (attempt client localPaths basePath sitecoreContextId language strategy w)))"

definition outcomeIn ::
  "('w, 'pc, 'ac) clientSDK \<Rightarrow> string list \<Rightarrow> string \<Rightarrow> string \<Rightarrow> string \<Rightarrow>
   (string \<Rightarrow> string \<Rightarrow> string) list \<Rightarrow> 'w \<Rightarrow> nat \<Rightarrow> (resolved \<times> nat) option" where
  "outcomeIn client localPaths basePath sitecoreContextId language strategies w k =
     fst (attempt client localPaths basePath sitecoreContextId language (strategies ! k)
            (worldAfter client localPaths basePath sitecoreContextId language (take k strategies) w))"

text \<open>
  The raw answer of the \<open>k\<close>-th strategy of a list, and the canonical identifier an answer
  holds under the alias \<open>path<index>\<close> (\<open>None\<close> when the call threw, or the answer has no data,
  no item there or an item without an id).
\<close>

definition responseIn ::
  "('w, 'pc, 'ac) clientSDK \<Rightarrow> string list \<Rightarrow> string \<Rightarrow> string \<Rightarrow> string \<Rightarrow>
   (string \<Rightarrow> string \<Rightarrow> string) list \<Rightarrow> 'w \<Rightarrow> nat \<Rightarrow> thrown + queryResult" where
  "responseIn client localPaths basePath sitecoreContextId language strategies w k =
     fst (mutate client
            (worldAfter client localPaths basePath sitecoreContextId language (take k strategies) w)
            (strategyRequest localPaths basePath sitecoreContextId language (strategies ! k)))"

definition lookedUp :: "thrown + queryResult \<Rightarrow> nat \<Rightarrow> string option" where
  "lookedUp answer index =
     (case answer of
        Inl e \<Rightarrow> None
      | Inr response \<Rightarrow>
          (case qdata response of
             None \<Rightarrow> None
           | Some responseData \<Rightarrow>
               (case map_of responseData (PathAlias index) of
                  Some (Some it) \<Rightarrow>
                    (case itemId it of
                       None \<Rightarrow> None
                     | Some i \<Rightarrow> (if i = [] then None else Some (cleanGuid i)))
                | _ \<Rightarrow> None)))"

definition responseAt ::
  "('w, 'pc, 'ac) clientSDK \<Rightarrow> string list \<Rightarrow> string \<Rightarrow> string \<Rightarrow> string \<Rightarrow> 'w \<Rightarrow> nat \<Rightarrow>
   thrown + queryResult" where
  "responseAt client localPaths basePath sitecoreContextId language w k =
     responseIn client localPaths basePath sitecoreContextId language pathStrategies w k"

definition foundAt ::
  "('w, 'pc, 'ac) clientSDK \<Rightarrow> string list \<Rightarrow> string \<Rightarrow> string \<Rightarrow> string \<Rightarrow> 'w \<Rightarrow> nat \<Rightarrow> nat" where
  "foundAt client localPaths basePath sitecoreContextId language w k =
     foundOf (outcomeIn client localPaths basePath sitecoreContextId language pathStrategies w k)"

definition resultAt ::
  "('w, 'pc, 'ac) clientSDK \<Rightarrow> string list \<Rightarrow> string \<Rightarrow> string \<Rightarrow> string \<Rightarrow> 'w \<Rightarrow> nat \<Rightarrow> resolved" where
  "resultAt client localPaths basePath sitecoreContextId language w k =
     resultOf (outcomeIn client localPaths basePath sitecoreContextId language pathStrategies w k)"


subsection \<open>Scripted clients for concrete runs\<close>

definition mkItem :: "string \<Rightarrow> item" where
  "mkItem i = \<lparr> itemId = Some i, iname = None, ipath = None, fieldNodes = None \<rparr>"

definition scriptedClient :: "(nat \<Rightarrow> thrown + queryResult) \<Rightarrow> (nat, unit, unit) clientSDK" where
  "scriptedClient script =
     \<lparr> mutate = (\<lambda>w req. (script w, Suc w)),
       queryPagesContext = (\<lambda>w. (Inl NonError, w)),
       queryApplicationContext = (\<lambda>w. (Inl NonError, w)) \<rparr>"

definition answer :: "gqlData \<Rightarrow> thrown + queryResult" where
  "answer d = Inr \<lparr> qdata = Some d, qerror = None \<rparr>"

definition overrideScript :: "nat \<Rightarrow> thrown + queryResult" where
  "overrideScript n =
     (if n = 0 then answer [(PathAlias 0, Some (mkItem ''{a1}''))]
      else if n = 1 then answer [(PathAlias 0, Some (mkItem ''b2'')), (PathAlias 1, Some (mkItem ''c3''))]
      else answer [])"


definition partialScript :: "nat \<Rightarrow> thrown + queryResult" where
  "partialScript n =
     (if n = 0 then answer [(PathAlias 0, Some (mkItem ''{a1}''))]
      else if n = 1 then Inl (ErrorObj ''network'')
      else answer [])"

definition alternatingScript :: "nat \<Rightarrow> thrown + queryResult" where
  "alternatingScript n =
     (if n = 0 then answer [(PathAlias 0, Some (mkItem ''{a1}''))]
      else if n = 1 then answer [(PathAlias 1, Some (mkItem ''c3''))]
      else answer [])"

definition protoScript :: "nat \<Rightarrow> thrown + queryResult" where
  "protoScript n =
     (if n = 0 then answer [(PathAlias 1, Some (mkItem ''{a1}''))]
      else if n = 1 then answer [(PathAlias 0, Some (mkItem ''b2''))]
      else answer [])"

definition indexScript :: "nat \<Rightarrow> thrown + queryResult" where
  "indexScript n =
     answer [(PathAlias 0, Some (mkItem ''{a1}'')), (PathAlias 1, Some (mkItem ''b2'')),
             (PathAlias 2, Some (mkItem ''c3''))]"


section \<open>getItemsFromAuthoring and getItemsFromLive\<close>

text \<open>
  The live endpoint is reached by a direct HTTP call. The call, the module-level
  configuration (\<open>LIVE_ENDPOINT\<close>, \<open>LIVE_TOKEN\<close>) and the helpers imported from
  \<open>utils/dataProcessing\<close>, whose code is not part of the sources at hand, are fields of an
  environment record; each helper may throw.
\<close>

record httpRequest =
  url :: string
  sc_apikey :: string
  httpQuery :: gqlQuery

record httpResponse =
  ok :: bool
  status :: nat
  json :: "thrown + gqlData option"

record extraction =
  exItemIds :: "string list"
  exLocalPathsToResolve :: "string list"
  exCurrentPagePath :: string
  exLanguage :: string

record parentInfo =
  pid :: string
  pname :: string
  displayName :: "string option"
  ppath :: string

type_synonym referencedBy = "(string \<times> parentInfo list) list"

record ('w, 'pc, 'pi, 'resp) env =
  fetch :: "'w \<Rightarrow> httpRequest \<Rightarrow> (thrown + httpResponse) \<times> 'w"
  LIVE_ENDPOINT :: string
  LIVE_TOKEN :: string
  formatGuidWithHyphens :: "string \<Rightarrow> thrown + string"
  extractItemIdsWithLocalPaths :: "'pc \<Rightarrow> thrown + extraction"
  processItemData ::
    "queryResult \<Rightarrow> queryResult \<Rightarrow> string list \<Rightarrow> string option \<Rightarrow> referencedBy option \<Rightarrow>
     thrown + 'pi list"
  createItemInformationResponse :: "'pi list \<Rightarrow> thrown + 'resp"

text \<open>Decimal text of a number, for \<open>`HTTP error! status: ${response.status}`\<close>.\<close>

function showNat :: "nat \<Rightarrow> string" where
  "showNat n =
     (if n < 10 then [char_of (48 + n)] else showNat (n div 10) @ [char_of (48 + n mod 10)])"
  by pat_completeness auto
termination
  by (relation "measure id") auto

text \<open>\<open>{ data: { data: {} } }\<close> and \<open>{ error }\<close>.\<close>

definition emptyResult :: queryResult where
  "emptyResult = \<lparr> qdata = Some [], qerror = None \<rparr>"

definition errorResult :: "thrown \<Rightarrow> queryResult" where
  "errorResult e = \<lparr> qdata = None, qerror = Some e \<rparr>"

definition authoringRequest :: "string list \<Rightarrow> string option \<Rightarrow> string \<Rightarrow> request" where
  "authoringRequest itemIds sitecoreContextId language =
     \<lparr> endpoint = ''xmc.authoring.graphql'',
       contextParam = (if truthy sitecoreContextId then sitecoreContextId else None),
       body = GetAuthoringItems (map (\<lambda>(index, i). (index, i, language)) (enumerate 0 itemIds)) \<rparr>"

definition getItemsFromAuthoring ::
  "('w, 'pc, 'ac) clientSDK option \<Rightarrow> string list \<Rightarrow> string option \<Rightarrow> string \<Rightarrow> 'w \<Rightarrow>
   queryResult \<times> 'w \<times> request list" where
  "getItemsFromAuthoring client itemIds sitecoreContextId language w =
     (case client of
        None \<Rightarrow> (emptyResult, w, [])
      | Some c \<Rightarrow>
          if itemIds = [] then (emptyResult, w, [])
          else (case mutate c w (authoringRequest itemIds sitecoreContextId language) of
                  (Inr result, w') \<Rightarrow>
                    (result, w', [authoringRequest itemIds sitecoreContextId language])
                | (Inl e, w') \<Rightarrow>
                    (errorResult e, w', [authoringRequest itemIds sitecoreContextId language])))"

text \<open>A \<open>map\<close> whose function may throw: the first throw ends it.\<close>

fun mapThrow :: "('a \<Rightarrow> thrown + 'b) \<Rightarrow> 'a list \<Rightarrow> thrown + 'b list" where
  "mapThrow f [] = Inr []"
| "mapThrow f (x # xs) =
     (case f x of
        Inl e \<Rightarrow> Inl e
      | Inr y \<Rightarrow> (case mapThrow f xs of Inl e \<Rightarrow> Inl e | Inr ys \<Rightarrow> Inr (y # ys)))"

definition formatGuidForLive :: "('w, 'pc, 'pi, 'resp) env \<Rightarrow> string \<Rightarrow> thrown + string" where
  "formatGuidForLive env guid = formatGuidWithHyphens env guid"

text \<open>
  The query of the live lookup is built before the \<open>try\<close>: a throw of the formatting helper
  is a throw of the building, and of \<open>getItemsFromLive\<close>.
\<close>

definition liveRequest ::
  "('w, 'pc, 'pi, 'resp) env \<Rightarrow> string list \<Rightarrow> string \<Rightarrow> thrown + httpRequest" where
  "liveRequest env itemIds language =
     (case mapThrow (formatGuidForLive env) itemIds of
        Inl e \<Rightarrow> Inl e
      | Inr guids \<Rightarrow>
          Inr \<lparr> url = LIVE_ENDPOINT env,
                sc_apikey = LIVE_TOKEN env,
                httpQuery = GetLiveItems
                  (map (\<lambda>(index, g). (index, ''{'' @ g @ ''}'', language)) (enumerate 0 guids)) \<rparr>)"

definition tokenError :: thrown where
  "tokenError = ErrorObj
     ''VITE_SITECORE_EDGE_TOKEN environment variable is not set. Please configure your Experience Edge API token.''"

text \<open>
  The result is \<open>Inl\<close> when the function throws (its promise rejects), which only the building
  of the query can cause; every failure inside the \<open>try\<close> is returned as \<open>{ error }\<close>.
\<close>

definition getItemsFromLive ::
  "('w, 'pc, 'pi, 'resp) env \<Rightarrow> ('w, 'pc, 'ac) clientSDK option \<Rightarrow> string list \<Rightarrow> string option \<Rightarrow>
   string \<Rightarrow> 'w \<Rightarrow> (thrown + queryResult) \<times> 'w \<times> httpRequest list" where
  "getItemsFromLive env unused_client itemIds unused_sitecoreContextId language w =
     (if itemIds = [] then (Inr emptyResult, w, [])
      else
        (case liveRequest env itemIds language of
           Inl e \<Rightarrow> (Inl e, w, [])
         | Inr req \<Rightarrow>
             if LIVE_TOKEN env = [] then (Inr (errorResult tokenError), w, [])
             else (case fetch env w req of
                     (Inl e, w') \<Rightarrow> (Inr (errorResult e), w', [req])
                   | (Inr response, w') \<Rightarrow>
                       if \<not> ok response then
                         (Inr (errorResult
                                 (ErrorObj (''HTTP error! status: '' @ showNat (status response)))),
                          w', [req])
                       else (case json response of
                               Inl e \<Rightarrow> (Inr (errorResult e), w', [req])
                             | Inr result \<Rightarrow>
                                 (Inr \<lparr> qdata = result, qerror = None \<rparr>, w', [req])))))"


section \<open>The hooks of useItemInformation\<close>

datatype netCall =
    MutateCall request
  | FetchCall httpRequest
  | PagesContextQuery
  | ApplicationContextQuery

record ('pi, 'resp) hookState =
  stData :: "'resp option"
  stItems :: "'pi list"
  stLoading :: bool
  stError :: "string option"

text \<open>\<open>err instanceof Error ? err.message : 'Unknown error occurred'\<close>\<close>

definition errorMessage :: "thrown \<Rightarrow> string" where
  "errorMessage err = (case err of ErrorObj m \<Rightarrow> m | NonError \<Rightarrow> ''Unknown error occurred'')"

subsection \<open>The application context\<close>

record accessContext =
  preview :: "string option"
  live :: "string option"
  master :: "string option"

record resourceAccessEntry =
  raContext :: "accessContext option"

record appContext =
  resourceAccess :: "resourceAccessEntry list option"
  acSitecoreContextId :: "string option"
  acContextId :: "string option"

text \<open>\<open>a || b\<close> on optional strings.\<close>

definition orValue :: "string option \<Rightarrow> string option \<Rightarrow> string option" where
  "orValue a b = (if truthy a then a else b)"

text \<open>\<open>appContext?.resourceAccess?.[0]?.context\<close>\<close>

definition firstContext :: "appContext option \<Rightarrow> accessContext option" where
  "firstContext appContext =
     (case appContext of
        None \<Rightarrow> None
      | Some ac \<Rightarrow>
          (case resourceAccess ac of
             None \<Rightarrow> None
           | Some [] \<Rightarrow> None
           | Some (r # rs) \<Rightarrow> raContext r))"

text \<open>The \<open>for\<close> loop over \<open>resourceAccess\<close>, leaving at the first truthy value.\<close>

fun scanResources :: "resourceAccessEntry list \<Rightarrow> string option \<Rightarrow> string option" where
  "scanResources [] sitecoreContextId = sitecoreContextId"
| "scanResources (r # rs) sitecoreContextId =
     (case raContext r of
        None \<Rightarrow> scanResources rs sitecoreContextId
      | Some cx \<Rightarrow>
          (let found = orValue (orValue (preview cx) (live cx)) (master cx)
           in if truthy found then found else scanResources rs found))"

definition extractSitecoreContextId :: "appContext option \<Rightarrow> string option" where
  "extractSitecoreContextId appContext =
     (let s1 = (case firstContext appContext of None \<Rightarrow> None | Some cx \<Rightarrow> preview cx);
          s2 = (if \<not> truthy s1
                then orValue (orValue (case firstContext appContext of None \<Rightarrow> None | Some cx \<Rightarrow> live cx)
                                (case appContext of None \<Rightarrow> None | Some ac \<Rightarrow> acSitecoreContextId ac))
                       (case appContext of None \<Rightarrow> None | Some ac \<Rightarrow> acContextId ac)
                else s1)
      in if \<not> truthy s2
         then (case appContext of
                 None \<Rightarrow> s2
               | Some ac \<Rightarrow> (case resourceAccess ac of None \<Rightarrow> s2 | Some rs \<Rightarrow> scanResources rs s2))
         else s2)"

subsection \<open>Reference extraction from authoring field values\<close>

definition isHexDigit :: "char \<Rightarrow> bool" where
  "isHexDigit c = (c \<in> set ''0123456789ABCDEFabcdef'')"

text \<open>\<open>dropHex n s\<close>: the rest of \<open>s\<close> after exactly \<open>n\<close> leading hexadecimal digits.\<close>

fun dropHex :: "nat \<Rightarrow> string \<Rightarrow> string option" where
  "dropHex 0 s = Some s"
| "dropHex (Suc n) [] = None"
| "dropHex (Suc n) (c # cs) = (if isHexDigit c then dropHex n cs else None)"

definition dropDash :: "string option \<Rightarrow> string option" where
  "dropDash r = (case r of Some (c # cs) \<Rightarrow> (if c = CHR ''-'' then Some cs else None) | _ \<Rightarrow> None)"

definition bindOpt :: "string option \<Rightarrow> (string \<Rightarrow> string option) \<Rightarrow> string option" where
  "bindOpt r f = (case r of None \<Rightarrow> None | Some s \<Rightarrow> f s)"

text \<open>The 8-4-4-4-12 pattern at the start of a string: the rest after its 36 characters.\<close>

definition guidCore :: "string \<Rightarrow> string option" where
  "guidCore s =
     bindOpt (dropDash (bindOpt (dropDash (bindOpt (dropDash (bindOpt (dropDash (dropHex 8 s))
       (dropHex 4))) (dropHex 4))) (dropHex 4))) (dropHex 12)"

text \<open>
  One match of \<open>guidRegex\<close> at the start of a string: an optional opening brace, the pattern,
  an optional closing brace. The result is the matched text.
\<close>

definition matchAt :: "string \<Rightarrow> string option" where
  "matchAt s =
     (let opening = (if prefix ''{'' s then ''{'' else []);
          inner = drop (length opening) s
      in case guidCore inner of
           None \<Rightarrow> None
         | Some rest \<Rightarrow>
             Some (opening @ take 36 inner @ (if prefix ''}'' rest then ''}'' else [])))"

text \<open>
  \<open>value.match(guidRegex)\<close> with the \<open>g\<close> flag: all matches from left to right, the search
  going on after each match. The counter is the number of characters still covered by the
  last match.
\<close>

fun scanGuids :: "nat \<Rightarrow> string \<Rightarrow> string list" where
  "scanGuids covered [] = []"
| "scanGuids (Suc covered) (c # cs) = scanGuids covered cs"
| "scanGuids 0 (c # cs) =
     (case matchAt (c # cs) of
        None \<Rightarrow> scanGuids 0 cs
      | Some m \<Rightarrow> m # scanGuids (length m - 1) cs)"

definition guidMatches :: "string \<Rightarrow> string list" where
  "guidMatches v = scanGuids 0 v"

text \<open>\<open>s.includes(sub)\<close>\<close>

fun includes_str :: "string \<Rightarrow> string \<Rightarrow> bool" where
  "includes_str [] sub = (sub = [])"
| "includes_str (c # cs) sub = (prefix sub (c # cs) \<or> includes_str cs sub)"

definition systemFields :: "string list" where
  "systemFields = [''__Created'', ''__Updated'', ''__Owner'', ''__Lock'', ''__Revision'',
     ''__Workflow'', ''__Standard Values'', ''__Sortorder'']"

definition excludedPaths :: "string list" where
  "excludedPaths = [''/sitecore/system/'', ''/sitecore/templates/'', ''/sitecore/layout/'']"

definition refsOf :: "referencedBy \<Rightarrow> string \<Rightarrow> parentInfo list" where
  "refsOf referencedByMap k = (case map_of referencedByMap k of None \<Rightarrow> [] | Some refs \<Rightarrow> refs)"

text \<open>
  The body of \<open>matches.forEach\<close>; the state is the pair of \<open>referencedByMap\<close> and
  \<open>nestedItemIds\<close>.
\<close>

definition recordMatch ::
  "parentInfo \<Rightarrow> string list \<Rightarrow> string \<Rightarrow> referencedBy \<times> string list \<Rightarrow> referencedBy \<times> string list" where
  "recordMatch parent itemIds match = (\<lambda>(referencedByMap, nestedItemIds).
     (let clean = cleanGuid match;
          map1 = (if map_of referencedByMap clean = None
                  then AList.update clean [] referencedByMap else referencedByMap);
          existingRefs = refsOf map1 clean;
          map2 = (if \<not> (\<exists>ref\<in>set existingRefs. pid ref = pid parent)
                  then AList.update clean (existingRefs @ [parent]) map1 else map1)
      in (map2,
          if clean \<notin> set itemIds \<and> clean \<notin> set nestedItemIds
          then nestedItemIds @ [clean] else nestedItemIds)))"

definition isSystemField :: "field \<Rightarrow> bool" where
  "isSystemField f = (\<exists>sf\<in>set systemFields. includes_str (fname f) sf)"

definition scanField ::
  "parentInfo \<Rightarrow> string list \<Rightarrow> field \<Rightarrow> referencedBy \<times> string list \<Rightarrow> referencedBy \<times> string list" where
  "scanField parent itemIds f st =
     (case fvalue f of
        None \<Rightarrow> st
      | Some v \<Rightarrow>
          if v = [] then st
          else if isSystemField f then st
          else fold (recordMatch parent itemIds) (guidMatches v) st)"

definition parentInfoOf :: "item \<Rightarrow> field list \<Rightarrow> parentInfo" where
  "parentInfoOf it nodes =
     (let displayNameField = find (\<lambda>f. fname f = ''__Display name'' \<or> fname f = ''Display Name'') nodes
      in \<lparr> pid = (case itemId it of None \<Rightarrow> [] | Some i \<Rightarrow> cleanGuid i),
           pname = orElse (iname it) ''Unknown'',
           displayName = (case displayNameField of
                            None \<Rightarrow> None
                          | Some f \<Rightarrow> (if truthy (fvalue f) then fvalue f else None)),
           ppath = orElse (ipath it) [] \<rparr>)"

definition scanItem ::
  "string list \<Rightarrow> item option \<Rightarrow> referencedBy \<times> string list \<Rightarrow> referencedBy \<times> string list" where
  "scanItem itemIds entry st =
     (case entry of
        None \<Rightarrow> st
      | Some it \<Rightarrow>
          (case fieldNodes it of
             None \<Rightarrow> st
           | Some nodes \<Rightarrow> fold (scanField (parentInfoOf it nodes) itemIds) nodes st))"

definition extractReferences :: "queryResult \<Rightarrow> string list \<Rightarrow> referencedBy \<times> string list" where
  "extractReferences authoringResult itemIds =
     (case qdata authoringResult of
        None \<Rightarrow> ([], [])
      | Some authoringData \<Rightarrow> fold (scanItem itemIds) (map snd authoringData) ([], []))"

subsection \<open>Validation of the nested items and merge of their results\<close>

definition nestedPath :: "item option \<Rightarrow> string" where
  "nestedPath nestedItem = (case nestedItem of None \<Rightarrow> [] | Some it \<Rightarrow> orElse (ipath it) [])"

definition nestedId :: "item option \<Rightarrow> string" where
  "nestedId nestedItem = (case nestedItem of None \<Rightarrow> [] | Some it \<Rightarrow> orElse (itemId it) [])"

definition isSystemItem :: "string \<Rightarrow> bool" where
  "isSystemItem itemPath = (\<exists>excludedPath\<in>set excludedPaths. prefix excludedPath itemPath)"

definition keepValid :: "aliasKey \<times> item option \<Rightarrow> string list \<Rightarrow> string list" where
  "keepValid = (\<lambda>(k, nestedItem) validNestedIds.
     if \<not> isSystemItem (nestedPath nestedItem) \<and> nestedPath nestedItem \<noteq> []
     then validNestedIds @ [cleanGuid (nestedId nestedItem)] else validNestedIds)"

definition filterSystemItems :: "queryResult \<Rightarrow> string list" where
  "filterSystemItems nestedAuthoringResult =
     (case qdata nestedAuthoringResult of
        None \<Rightarrow> []
      | Some nestedAuthoringData \<Rightarrow> fold keepValid nestedAuthoringData [])"

text \<open>
  The nested entries are written into the original response object under the new keys
  \<open>item<startIndex + index>\<close>, where \<open>startIndex\<close> is the number of keys of the original
  object (the length of the association list, its keys being distinct). A result without
  data, on either side, leaves the original as it is.
\<close>

definition mergeNested :: "queryResult \<Rightarrow> queryResult \<Rightarrow> queryResult" where
  "mergeNested original nested =
     (case (qdata nested, qdata original) of
        (Some nestedData, Some originalData) \<Rightarrow>
          original\<lparr> qdata := Some
            (fold (\<lambda>(index, (k, v)). AList.update (ItemAlias (length originalData + index)) v)
               (enumerate 0 nestedData) originalData) \<rparr>
      | _ \<Rightarrow> original)"

text \<open>
  The two \<open>if (nestedItemIds.length > 0)\<close> blocks: the validation lookup and the filter, then,
  for the validated identifiers, the live lookup, the full authoring lookup, the merge of
  both results and the extension of \<open>itemIds\<close>. The result is the triple of the authoring
  result, the live result and \<open>itemIds\<close>, or the value thrown by the live lookup, with the
  world and the calls issued.
\<close>

definition nestedStage ::
  "('w, 'pc, 'pi, 'resp) env \<Rightarrow> ('w, 'pc, 'ac) clientSDK \<Rightarrow> string option \<Rightarrow> string \<Rightarrow>
   string list \<Rightarrow> string list \<Rightarrow> queryResult \<Rightarrow> queryResult \<Rightarrow> 'w \<Rightarrow>
   (thrown + (queryResult \<times> queryResult \<times> string list)) \<times> 'w \<times> netCall list" where
  "nestedStage env client sitecoreContextId language itemIds nestedItemIds authoringResult liveResult w =
     (if nestedItemIds = [] then (Inr (authoringResult, liveResult, itemIds), w, [])
      else
        (case getItemsFromAuthoring (Some client) nestedItemIds sitecoreContextId language w of
           (nestedAuthoringResult, w1, t1) \<Rightarrow>
             (let validNestedIds = filterSystemItems nestedAuthoringResult
              in if validNestedIds = []
                 then (Inr (authoringResult, liveResult, itemIds), w1, map MutateCall t1)
                 else
                   (case getItemsFromLive env (Some client) validNestedIds sitecoreContextId language w1 of
                      (Inl e, w2, t2) \<Rightarrow> (Inl e, w2, map MutateCall t1 @ map FetchCall t2)
                    | (Inr nestedLiveResult, w2, t2) \<Rightarrow>
                        (case getItemsFromAuthoring (Some client) validNestedIds sitecoreContextId language w2 of
                           (nestedAuthoringFullResult, w3, t3) \<Rightarrow>
                             (Inr (mergeNested authoringResult nestedAuthoringFullResult,
                                   mergeNested liveResult nestedLiveResult,
                                   itemIds @ validNestedIds),
                              w3, map MutateCall t1 @ map FetchCall t2 @ map MutateCall t3))))))"


subsection \<open>fetchItemInformation\<close>

text \<open>
  The identifiers the cycle starts from: the explicit list when one is given and not empty,
  otherwise what the helper extracts from the page context. The result is the tuple of
  \<open>itemIds\<close>, \<open>currentItemId\<close>, \<open>localPathsToResolve\<close>, \<open>currentPagePath\<close> and \<open>language\<close>, or
  the value thrown.
\<close>

definition initialIds ::
  "('w, 'pc, 'pi, 'resp) env \<Rightarrow> ('w, 'pc, 'ac) clientSDK \<Rightarrow> string list option \<Rightarrow> 'w \<Rightarrow>
   (thrown + (string list \<times> string option \<times> string list \<times> string \<times> string)) \<times> 'w \<times> netCall list" where
  "initialIds env client specificItemIds w =
     (case specificItemIds of
        Some (first # others) \<Rightarrow> (Inr (first # others, Some first, [], [], ''en''), w, [])
      | _ \<Rightarrow>
          (case queryPagesContext client w of
             (Inl e, w') \<Rightarrow> (Inl e, w', [PagesContextQuery])
           | (Inr pageContext, w') \<Rightarrow>
               (case extractItemIdsWithLocalPaths env pageContext of
                  Inl e \<Rightarrow> (Inl e, w', [PagesContextQuery])
                | Inr extractionResult \<Rightarrow>
                    (case exItemIds extractionResult of
                       [] \<Rightarrow> (Inl (ErrorObj ''No item IDs found in current context''), w',
                              [PagesContextQuery])
                     | first # others \<Rightarrow>
                         (Inr (first # others, Some first,
                               exLocalPathsToResolve extractionResult,
                               exCurrentPagePath extractionResult,
                               exLanguage extractionResult),
                          w', [PagesContextQuery])))))"

text \<open>The application context query, with its own \<open>try\<close>: a failure leaves no context id.\<close>

definition contextIdStage ::
  "('w, 'pc, appContext option) clientSDK \<Rightarrow> 'w \<Rightarrow> string option \<times> 'w" where
  "contextIdStage client w =
     (case queryApplicationContext client w of
        (Inl e, w') \<Rightarrow> (None, w')
      | (Inr appContext, w') \<Rightarrow> (extractSitecoreContextId appContext, w'))"

text \<open>\<open>Object.values(resolvedPaths).forEach(...)\<close>: the resolved identifiers not yet listed.\<close>

definition addResolved :: "string option \<Rightarrow> string list \<Rightarrow> string list" where
  "addResolved resolvedId itemIds =
     (case resolvedId of
        None \<Rightarrow> itemIds
      | Some r \<Rightarrow> (if r \<noteq> [] \<and> r \<notin> set itemIds then itemIds @ [r] else itemIds))"

definition resolveStage ::
  "('w, 'pc, 'ac) clientSDK \<Rightarrow> string list \<Rightarrow> string \<Rightarrow> string option \<Rightarrow> string \<Rightarrow> string list \<Rightarrow> 'w \<Rightarrow>
   string list \<times> 'w \<times> netCall list" where
  "resolveStage client localPathsToResolve currentPagePath sitecoreContextId language itemIds w =
     (if localPathsToResolve \<noteq> [] \<and> truthy sitecoreContextId
      then (case resolveLocalDatasourcePaths (Some client) localPathsToResolve currentPagePath
                   (the sitecoreContextId) language w of
              (resolvedPaths, w', issued) \<Rightarrow>
                (fold addResolved (map snd resolvedPaths) itemIds, w', map MutateCall issued))
      else (itemIds, w, []))"

text \<open>
  \<open>Promise.all([getItemsFromAuthoring(...), getItemsFromLive(...)])\<close>: the authoring call is
  issued first, then the live call; the fan-out yields the pair of results, or throws what
  the live lookup threw (the authoring call has been issued all the same).
\<close>

definition fanOut ::
  "('w, 'pc, 'pi, 'resp) env \<Rightarrow> ('w, 'pc, 'ac) clientSDK option \<Rightarrow> string list \<Rightarrow> string option \<Rightarrow>
   string \<Rightarrow> 'w \<Rightarrow> (thrown + (queryResult \<times> queryResult)) \<times> 'w \<times> netCall list" where
  "fanOut env client itemIds sitecoreContextId language w =
     (case getItemsFromAuthoring client itemIds sitecoreContextId language w of
        (authoringResult, w1, t1) \<Rightarrow>
          (case getItemsFromLive env client itemIds sitecoreContextId language w1 of
             (Inl e, w2, t2) \<Rightarrow> (Inl e, w2, map MutateCall t1 @ map FetchCall t2)
           | (Inr liveResult, w2, t2) \<Rightarrow>
               (Inr (authoringResult, liveResult), w2, map MutateCall t1 @ map FetchCall t2)))"

record cycleData =
  cdAuthoringResult :: queryResult
  cdLiveResult :: queryResult
  cdItemIds :: "string list"
  cdCurrentItemId :: "string option"
  cdReferencedByMap :: referencedBy

text \<open>
  The body of the \<open>try\<close> up to the call of \<open>processItemData\<close>: what that call receives, or the
  value thrown.
\<close>

definition gatherCycle ::
  "('w, 'pc, 'pi, 'resp) env \<Rightarrow> ('w, 'pc, appContext option) clientSDK \<Rightarrow> string list option \<Rightarrow> 'w \<Rightarrow>
   (thrown + cycleData) \<times> 'w \<times> netCall list" where
  "gatherCycle env client specificItemIds w =
     (case initialIds env client specificItemIds w of
        (Inl e, w1, t1) \<Rightarrow> (Inl e, w1, t1)
      | (Inr (itemIds0, currentItemId, localPathsToResolve, currentPagePath, language), w1, t1) \<Rightarrow>
          (case contextIdStage client w1 of
             (sitecoreContextId, w2) \<Rightarrow>
               (case resolveStage client localPathsToResolve currentPagePath sitecoreContextId
                       language itemIds0 w2 of
                  (itemIds, w3, t3) \<Rightarrow>
                    (case fanOut env (Some client) itemIds sitecoreContextId language w3 of
                       (Inl e, w5, t5) \<Rightarrow> (Inl e, w5, t1 @ [ApplicationContextQuery] @ t3 @ t5)
                     | (Inr (authoringResult, liveResult), w5, t5) \<Rightarrow>
                         (case extractReferences authoringResult itemIds of
                            (referencedByMap, nestedItemIds) \<Rightarrow>
                              (case nestedStage env client sitecoreContextId language itemIds
                                      nestedItemIds authoringResult liveResult w5 of
                                 (Inl e, w6, t6) \<Rightarrow>
                                   (Inl e, w6, t1 @ [ApplicationContextQuery] @ t3 @ t5 @ t6)
                               | (Inr (authoringResult', liveResult', itemIds'), w6, t6) \<Rightarrow>
                                   (Inr \<lparr> cdAuthoringResult = authoringResult',
                                          cdLiveResult = liveResult',
                                          cdItemIds = itemIds',
                                          cdCurrentItemId = currentItemId,
                                          cdReferencedByMap = referencedByMap \<rparr>,
                                    w6,
                                    t1 @ [ApplicationContextQuery] @ t3 @ t5 @ t6)))))))"

text \<open>The end of the \<open>try\<close>: the processed items and the response, or the value thrown.\<close>

definition buildResponse ::
  "('w, 'pc, 'pi, 'resp) env \<Rightarrow> queryResult \<Rightarrow> queryResult \<Rightarrow> string list \<Rightarrow> string option \<Rightarrow>
   referencedBy option \<Rightarrow> thrown + ('pi list \<times> 'resp)" where
  "buildResponse env authoringResult liveResult itemIds currentItemId referencedByMap =
     (case processItemData env authoringResult liveResult itemIds currentItemId referencedByMap of
        Inl e \<Rightarrow> Inl e
      | Inr processedItems \<Rightarrow>
          (case createItemInformationResponse env processedItems of
             Inl e \<Rightarrow> Inl e
           | Inr itemInformationResponse \<Rightarrow> Inr (processedItems, itemInformationResponse)))"

text \<open>The \<open>catch\<close> and \<open>finally\<close> blocks, and the two setters of the successful end.\<close>

definition failed :: "('pi, 'resp) hookState \<Rightarrow> thrown \<Rightarrow> ('pi, 'resp) hookState" where
  "failed st err = st\<lparr> stError := Some (errorMessage err), stData := None, stItems := [], stLoading := False \<rparr>"

definition published :: "('pi, 'resp) hookState \<Rightarrow> 'pi list \<times> 'resp \<Rightarrow> ('pi, 'resp) hookState" where
  "published st r = st\<lparr> stData := Some (snd r), stItems := fst r, stLoading := False \<rparr>"

definition fetchItemInformation ::
  "('w, 'pc, 'pi, 'resp) env \<Rightarrow> ('w, 'pc, appContext option) clientSDK option \<Rightarrow> bool \<Rightarrow>
   string list option \<Rightarrow> ('pi, 'resp) hookState \<Rightarrow> 'w \<Rightarrow> ('pi, 'resp) hookState \<times> 'w \<times> netCall list" where
  "fetchItemInformation env client isInitialized specificItemIds st w =
     (case client of
        None \<Rightarrow> (st\<lparr> stError := Some ''Marketplace client not initialized'' \<rparr>, w, [])
      | Some c \<Rightarrow>
          if \<not> isInitialized then (st\<lparr> stError := Some ''Marketplace client not initialized'' \<rparr>, w, [])
          else
            (let st1 = st\<lparr> stLoading := True, stError := None \<rparr>
             in case gatherCycle env c specificItemIds w of
                  (Inl err, w', calls) \<Rightarrow> (failed st1 err, w', calls)
                | (Inr cd, w', calls) \<Rightarrow>
                    (case buildResponse env (cdAuthoringResult cd) (cdLiveResult cd) (cdItemIds cd)
                            (cdCurrentItemId cd) (Some (cdReferencedByMap cd)) of
                       Inl err \<Rightarrow> (failed st1 err, w', calls)
                     | Inr r \<Rightarrow> (published st1 r, w', calls))))"

subsection \<open>useSpecificItemsInformation: fetchSpecificItems\<close>

definition fetchSpecificItems ::
  "('w, 'pc, 'pi, 'resp) env \<Rightarrow> ('w, 'pc, 'ac) clientSDK option \<Rightarrow> bool \<Rightarrow> string list \<Rightarrow>
   ('pi, 'resp) hookState \<Rightarrow> 'w \<Rightarrow> ('pi, 'resp) hookState \<times> 'w \<times> netCall list" where
  "fetchSpecificItems env client isInitialized itemIds st w =
     (if client = None \<or> \<not> isInitialized \<or> itemIds = []
      then (st\<lparr> stError := Some (if itemIds = [] then ''No item IDs provided''
                                  else ''Marketplace client not initialized'') \<rparr>, w, [])
      else
        (let st1 = st\<lparr> stLoading := True, stError := None \<rparr>
         in case fanOut env client itemIds None ''en'' w of
              (Inl err, w2, calls) \<Rightarrow> (failed st1 err, w2, calls)
            | (Inr (authoringResult, liveResult), w2, calls) \<Rightarrow>
                (case buildResponse env authoringResult liveResult itemIds (Some (hd itemIds)) None of
                   Inl err \<Rightarrow> (failed st1 err, w2, calls)
                 | Inr r \<Rightarrow> (published st1 r, w2, calls))))"


subsection \<open>Predicates on the state of the extraction and on resolved maps\<close>

text \<open>
  \<open>recorded g p\<close>: some parent with id \<open>p\<close> is listed for the child \<open>g\<close>; \<open>refsDistinct\<close>: no
  child lists two parents of the same id; \<open>queueClean\<close>: the nested queue has no duplicate and
  shares no element with the main list; \<open>queueCanonical\<close> and \<open>canonicalValues\<close>: the queued
  identifiers, and the identifiers a resolved map holds, are in canonical form.
\<close>

definition recorded :: "string \<Rightarrow> string \<Rightarrow> referencedBy \<times> string list \<Rightarrow> bool" where
  "recorded g p st = (\<exists>ref\<in>set (refsOf (fst st) g). pid ref = p)"

definition refsDistinct :: "referencedBy \<times> string list \<Rightarrow> bool" where
  "refsDistinct st = (\<forall>g. distinct (map pid (refsOf (fst st) g)))"

definition queueClean :: "string list \<Rightarrow> referencedBy \<times> string list \<Rightarrow> bool" where
  "queueClean itemIds st = (distinct (snd st) \<and> set (snd st) \<inter> set itemIds = {})"

definition canonicalValues :: "resolved \<Rightarrow> bool" where
  "canonicalValues res = (\<forall>entry\<in>set res. \<forall>x. snd entry = Some x \<longrightarrow> cleanGuid x = x)"

definition queueCanonical :: "referencedBy \<times> string list \<Rightarrow> bool" where
  "queueCanonical st = (\<forall>i\<in>set (snd st). cleanGuid i = i)"

text \<open>
  \<open>answersRequested requested r\<close>: the keys of the response \<open>r\<close> are distinct, and every entry
  the validation keeps (a path that is not empty and not under an excluded prefix) sits under
  the alias \<open>item<index>\<close> of a requested identifier and carries, in canonical form, that
  identifier.
\<close>

definition answersRequested :: "string list \<Rightarrow> queryResult \<Rightarrow> bool" where
  "answersRequested requested r =
     (case qdata r of
        None \<Rightarrow> True
      | Some d \<Rightarrow>
          distinct (map fst d) \<and>
          (\<forall>entry\<in>set d.
             \<not> isSystemItem (nestedPath (snd entry)) \<and> nestedPath (snd entry) \<noteq> [] \<longrightarrow>
             (case fst entry of
                ItemAlias index \<Rightarrow>
                  index < length requested \<and> cleanGuid (nestedId (snd entry)) = requested ! index
              | _ \<Rightarrow> False)))"



subsection \<open>A concrete environment, client and state for runs of the hooks\<close>

definition exampleEnv :: "(nat, unit, nat, nat) env" where
  "exampleEnv =
     \<lparr> fetch = (\<lambda>w req. (Inr \<lparr> ok = True, status = 200, json = Inr (Some []) \<rparr>, Suc w)),
       LIVE_ENDPOINT = ''https://edge.sitecorecloud.io/api/graphql/v1'',
       LIVE_TOKEN = ''token'',
       formatGuidWithHyphens = (\<lambda>guid. Inr guid),
       extractItemIdsWithLocalPaths = (\<lambda>pageContext. Inr \<lparr> exItemIds = [], exLocalPathsToResolve = [],
                                          exCurrentPagePath = [], exLanguage = ''en'' \<rparr>),
       processItemData = (\<lambda>authoringResult liveResult itemIds currentItemId referencedByMap.
                            Inr (map length itemIds)),
       createItemInformationResponse = (\<lambda>processedItems. Inr (length processedItems)) \<rparr>"

definition exampleClient :: "(nat, unit, appContext option) clientSDK" where
  "exampleClient =
     \<lparr> mutate = (\<lambda>w req. (answer [], Suc w)),
       queryPagesContext = (\<lambda>w. (Inr (), Suc w)),
       queryApplicationContext = (\<lambda>w. (Inr None, Suc w)) \<rparr>"

definition exampleState :: "(nat, nat) hookState" where
  "exampleState = \<lparr> stData = Some 2, stItems = [36, 36], stLoading = False, stError = None \<rparr>"

definition noTokenEnv :: "(nat, unit, nat, nat) env" where
  "noTokenEnv = exampleEnv\<lparr> LIVE_TOKEN := [] \<rparr>"


definition nestedClient :: "(nat, unit, appContext option) clientSDK" where
  "nestedClient = exampleClient\<lparr> mutate := (\<lambda>w req.
     (answer [(ItemAlias 0, Some \<lparr> itemId = Some ''{s1}'', iname = Some ''FAQ Template'',
                                   ipath = Some ''/sitecore/templates/Feature/FAQ'', fieldNodes = None \<rparr>),
              (ItemAlias 1, Some \<lparr> itemId = Some ''{c1}'', iname = Some ''FAQ 1'',
                                   ipath = Some ''/sitecore/content/Home/Data/FAQ 1'', fieldNodes = None \<rparr>)],
      Suc w)) \<rparr>"

definition pageId :: string where
  "pageId = ''11111111-1111-1111-1111-111111111111''"

definition relatedId :: string where
  "relatedId = ''AAAAAAAA-BBBB-CCCC-DDDD-EEEEEEEEEEEE''"

definition faqId :: string where
  "faqId = ''F1111111-2222-3333-4444-555555555555''"

definition relatedField :: field where
  "relatedField = \<lparr> fname = ''Related'',
     fvalue = Some ''Related: {aaaaaaaa-bbbb-cccc-dddd-eeeeeeeeeeee}, and F1111111-2222-3333-4444-555555555555'' \<rparr>"

text \<open>An authoring store that answers every requested identifier with an item of that id.\<close>

definition itemFor :: "string \<Rightarrow> item" where
  "itemFor i = \<lparr> itemId = Some (''{'' @ i @ ''}''), iname = Some ''Item'',
                 ipath = Some (''/sitecore/content/Home/'' @ i),
                 fieldNodes = Some (if i = pageId then [relatedField] else []) \<rparr>"

definition echoClient :: "(nat, unit, appContext option) clientSDK" where
  "echoClient = exampleClient\<lparr> mutate := (\<lambda>w req.
     (case body req of
        GetAuthoringItems selections \<Rightarrow>
          answer (map (\<lambda>(index, i, language). (ItemAlias index, Some (itemFor i))) selections)
      | _ \<Rightarrow> answer [],
      Suc w)) \<rparr>"





definition throwingEnv :: "(nat, unit, nat, nat) env" where
  "throwingEnv = exampleEnv\<lparr> formatGuidWithHyphens := (\<lambda>guid. Inl (ErrorObj ''Invalid GUID'')) \<rparr>"

text \<open>
  An authoring store holding one item, which it returns for every requested identifier with
  the item's id written without hyphens; a field of the item names the item itself in the
  hyphenated spelling.
\<close>

definition compactId :: string where
  "compactId = ''AAAAAAAABBBBCCCCDDDDEEEEEEEEEEEE''"

definition linkField :: field where
  "linkField = \<lparr> fname = ''Link'', fvalue = Some ''{aaaaaaaa-bbbb-cccc-dddd-eeeeeeeeeeee}'' \<rparr>"

definition compactItem :: item where
  "compactItem = \<lparr> itemId = Some compactId, iname = Some ''Item'',
                   ipath = Some ''/sitecore/content/Home/Item'', fieldNodes = Some [linkField] \<rparr>"

definition compactClient :: "(nat, unit, appContext option) clientSDK" where
  "compactClient = exampleClient\<lparr> mutate := (\<lambda>w req.
     (case body req of
        GetAuthoringItems selections \<Rightarrow>
          answer (map (\<lambda>(index, i, language). (ItemAlias index, Some compactItem)) selections)
      | _ \<Rightarrow> answer [],
      Suc w)) \<rparr>"


section \<open>Properties of the path resolver\<close>

subsection \<open>Objects\<close>

lemma placeIndex_set: "set (placeIndex k v obj) = insert (k, v) (set obj)"
  by (induction obj) auto

lemma placeIndex_map_of:
  "k \<notin> fst ` set obj \<Longrightarrow> map_of (placeIndex k v obj) = (map_of obj)(k \<mapsto> v)"
proof (induction obj)
  case Nil
  then show ?case by simp
next
  case (Cons e obj)
  obtain k' v' where e: "e = (k', v')" by (cases e)
  have ne: "k' \<noteq> k" and rest: "k \<notin> fst ` set obj" using Cons.prems e by auto
  have ih: "map_of (placeIndex k v obj) = (map_of obj)(k \<mapsto> v)" using rest by (rule Cons.IH)
  show ?case using e ne ih by (auto simp: fun_eq_iff)
qed

lemma placeIndex_distinct:
  "k \<notin> fst ` set obj \<Longrightarrow> distinct (map fst obj) \<Longrightarrow> distinct (map fst (placeIndex k v obj))"
proof (induction obj)
  case Nil
  then show ?case by simp
next
  case (Cons e obj)
  have keys: "fst ` set (placeIndex k v obj) = insert k (fst ` set obj)"
    by (simp add: placeIndex_set)
  show ?case using Cons keys by auto
qed

lemma objDefine_set_cases: "e \<in> set (objDefine k v obj) \<Longrightarrow> e = (k, v) \<or> e \<in> set obj"
proof -
  have u: "e \<in> set (AList.update k v al) \<Longrightarrow> e = (k, v) \<or> e \<in> set al" for al
    by (induction al) (auto split: if_splits)
  assume "e \<in> set (objDefine k v obj)"
  then show ?thesis using u[of obj] by (auto simp: objDefine_def placeIndex_set split: if_splits)
qed

lemma objDefine_keys: "fst ` set (objDefine k v obj) = insert k (fst ` set obj)"
  by (auto simp: objDefine_def placeIndex_set AList.dom_update)

lemma objDefine_map_of: "map_of (objDefine k v obj) = (map_of obj)(k \<mapsto> v)"
  by (simp add: objDefine_def placeIndex_map_of AList.update_conv')

lemma objDefine_distinct: "distinct (map fst obj) \<Longrightarrow> distinct (map fst (objDefine k v obj))"
  by (simp add: objDefine_def placeIndex_distinct AList.distinct_update)




lemma objAssign_keys_lower:
  "fst ` set obj \<union> ({k} - {''__proto__''}) \<subseteq> fst ` set (fst (objAssign k v (obj, fl)))"
proof (cases "k = ''__proto__'' \<and> \<not> fl")
  case True
  then show ?thesis by (auto simp: objAssign_def)
next
  case False
  then have "fst (objAssign k v (obj, fl)) = objDefine k v obj" by (auto simp: objAssign_def)
  then show ?thesis by (simp add: objDefine_keys) blast
qed

lemma objAssign_distinct:
  "distinct (map fst obj) \<Longrightarrow> distinct (map fst (fst (objAssign k v (obj, fl))))"
proof (cases "k = ''__proto__'' \<and> \<not> fl")
  case True
  assume "distinct (map fst obj)"
  then show ?thesis using True by (auto simp: objAssign_def)
next
  case False
  assume d: "distinct (map fst obj)"
  have "fst (objAssign k v (obj, fl)) = objDefine k v obj" using False by (auto simp: objAssign_def)
  then show ?thesis using d by (simp add: objDefine_distinct)
qed


lemma objAssign_set_cases:
  assumes "e \<in> set (fst (objAssign k v (obj, fl)))"
  shows "e = (k, v) \<or> e \<in> set obj"
proof (cases "k = ''__proto__'' \<and> \<not> fl")
  case True
  then show ?thesis using assms by (auto simp: objAssign_def)
next
  case False
  then have "fst (objAssign k v (obj, fl)) = objDefine k v obj" by (auto simp: objAssign_def)
  then show ?thesis using assms objDefine_set_cases[of e k v obj] by simp
qed

subsection \<open>One strategy's result\<close>

lemma recordPath_step:
  "recordPath d (i, lp) (st, n) =
     (objAssign lp (lookedUp (Inr \<lparr> qdata = Some d, qerror = err \<rparr>) i) st,
      if lookedUp (Inr \<lparr> qdata = Some d, qerror = err \<rparr>) i = None then n else Suc n)"
  by (auto simp: recordPath_def lookedUp_def truthy_def split: option.splits)

text \<open>What the \<open>forEach\<close> leaves, for any start.\<close>

lemma forEach_Cons:
  assumes "objAssign x (lookedUp (Inr \<lparr> qdata = Some d, qerror = None \<rparr>) n) (res, fl) = (res', fl')"
  shows "fold (recordPath d) (enumerate n (x # xs)) ((res, fl), m) =
           fold (recordPath d) (enumerate (Suc n) xs)
             ((res', fl'), if lookedUp (Inr \<lparr> qdata = Some d, qerror = None \<rparr>) n = None then m else Suc m)"
  using assms by (simp add: recordPath_step[where err=None])


lemma forEach_keys_lower:
  "fst ` set res \<union> (set xs - {''__proto__''})
     \<subseteq> fst ` set (fst (fst (fold (recordPath d) (enumerate n xs) ((res, fl), m))))"
proof (induction xs arbitrary: n res fl m)
  case Nil
  then show ?case by simp
next
  case (Cons x xs)
  let ?v = "lookedUp (Inr \<lparr> qdata = Some d, qerror = None \<rparr>) n"
  obtain res' fl' where a: "objAssign x ?v (res, fl) = (res', fl')" by (cases "objAssign x ?v (res, fl)")
  have k: "fst ` set res \<union> ({x} - {''__proto__''}) \<subseteq> fst ` set res'"
    using objAssign_keys_lower[of res x ?v fl] a by simp
  have ih: "fst ` set res' \<union> (set xs - {''__proto__''})
          \<subseteq> fst ` set (fst (fst (fold (recordPath d) (enumerate (Suc n) xs)
            ((res', fl'), if ?v = None then m else Suc m))))"
    by (rule Cons.IH)
  show ?case unfolding forEach_Cons[OF a] using ih k by (simp only: list.set) blast
qed

lemma forEach_distinct:
  "distinct (map fst res) \<Longrightarrow>
     distinct (map fst (fst (fst (fold (recordPath d) (enumerate n xs) ((res, fl), m)))))"
proof (induction xs arbitrary: n res fl m)
  case Nil
  then show ?case by simp
next
  case (Cons x xs)
  let ?v = "lookedUp (Inr \<lparr> qdata = Some d, qerror = None \<rparr>) n"
  obtain res' fl' where a: "objAssign x ?v (res, fl) = (res', fl')" by (cases "objAssign x ?v (res, fl)")
  have k: "distinct (map fst res')"
    using objAssign_distinct[OF Cons.prems, of x ?v fl] a by simp
  have "distinct (map fst (fst (fst (fold (recordPath d) (enumerate (Suc n) xs)
            ((res', fl'), if ?v = None then m else Suc m)))))"
    using k by (rule Cons.IH)
  then show ?case unfolding forEach_Cons[OF a] .
qed


lemma lookedUp_data:
  "qdata resp = Some d \<Longrightarrow> lookedUp (Inr resp) i = lookedUp (Inr \<lparr> qdata = Some d, qerror = None \<rparr>) i"
  by (simp add: lookedUp_def)





lemma strategyResult_data:
  "qdata resp = Some d \<Longrightarrow>
     fst (strategyResult lps resp) = fst (fst (fold (recordPath d) (enumerate 0 lps) (([], False), 0)))"
  by (simp add: strategyResult_def split: prod.splits)

lemma strategyResult_found_data:
  "0 < snd (strategyResult lps resp) \<Longrightarrow> qdata resp \<noteq> None"
  by (auto simp: strategyResult_def split: option.splits)


lemma strategyResult_keys_lower:
  "qdata resp \<noteq> None \<Longrightarrow> set lps - {''__proto__''} \<subseteq> fst ` set (fst (strategyResult lps resp))"
proof -
  assume "qdata resp \<noteq> None"
  then obtain d where d: "qdata resp = Some d" by blast
  show ?thesis
    using forEach_keys_lower[of "[]" lps d 0 False 0] by (simp add: strategyResult_data[OF d])
qed

lemma strategyResult_distinct: "distinct (map fst (fst (strategyResult lps resp)))"
proof (cases "qdata resp")
  case None
  then show ?thesis by (simp add: strategyResult_def)
next
  case (Some d)
  have "distinct (map fst ([] :: resolved))" by simp
  then have "distinct (map fst (fst (fst (fold (recordPath d) (enumerate 0 lps) (([], False), 0)))))"
    by (rule forEach_distinct)
  then show ?thesis by (simp add: strategyResult_data[OF Some])
qed



subsection \<open>The spread\<close>


lemma map_of_fold_define:
  "distinct (map fst b) \<Longrightarrow> map_of (fold (\<lambda>(k, v). objDefine k v) b a) = map_of a ++ map_of b"
proof (induction b arbitrary: a)
  case Nil
  then show ?case by simp
next
  case (Cons e b)
  obtain k v where e: "e = (k, v)" by (cases e)
  have kb: "map_of b k = None"
    using Cons.prems e by (simp add: map_of_eq_None_iff)
  have db: "distinct (map fst b)" using Cons.prems by simp
  have "map_of (fold (\<lambda>(k, v). objDefine k v) (e # b) a)
          = map_of (fold (\<lambda>(k, v). objDefine k v) b (objDefine k v a))"
    using e by simp
  also have "\<dots> = map_of (objDefine k v a) ++ map_of b"
    using db by (rule Cons.IH)
  also have "\<dots> = map_of a ++ map_of (e # b)"
  proof
    fix x
    show "(map_of (objDefine k v a) ++ map_of b) x = (map_of a ++ map_of (e # b)) x"
      using kb e by (cases "x = k") (simp_all add: map_add_def objDefine_map_of split: option.splits)
  qed
  finally show ?case .
qed

lemma map_of_spread:
  "distinct (map fst b) \<Longrightarrow> map_of (spread a b) = map_of a ++ map_of b"
  by (simp add: spread_def map_of_fold_define)

subsection \<open>The strategy loop\<close>


lemma strategyLoop_step:
  "strategyLoop c lps bp ctx lang (s # rest) w acc tr =
     (if foundOf (fst (attempt c lps bp ctx lang s w)) = length lps \<and> fst (attempt c lps bp ctx lang s w) \<noteq> None
      then (resultOf (fst (attempt c lps bp ctx lang s w)), snd (attempt c lps bp ctx lang s w),
            tr @ [strategyRequest lps bp ctx lang s])
      else strategyLoop c lps bp ctx lang rest (snd (attempt c lps bp ctx lang s w))
             (mergeFound acc (fst (attempt c lps bp ctx lang s w)))
             (tr @ [strategyRequest lps bp ctx lang s]))"
proof (cases "attempt c lps bp ctx lang s w")
  case (Pair r w')
  show ?thesis
  proof (cases r)
    case None
    with Pair show ?thesis by (simp add: Let_def foundOf_def resultOf_def mergeFound_def)
  next
    case (Some rf)
    obtain res f where rf: "rf = (res, f)" by (cases rf)
    with Pair Some show ?thesis by (simp add: Let_def foundOf_def resultOf_def mergeFound_def)
  qed
qed

lemma worldAfter_append:
  "worldAfter c lps bp ctx lang (xs @ ys) w =
     worldAfter c lps bp ctx lang ys (worldAfter c lps bp ctx lang xs w)"
  by (induction xs arbitrary: w) simp_all

lemma accAfter_append:
  "accAfter c lps bp ctx lang (xs @ ys) w acc =
     accAfter c lps bp ctx lang ys (worldAfter c lps bp ctx lang xs w) (accAfter c lps bp ctx lang xs w acc)"
  by (induction xs arbitrary: w acc) simp_all

lemma outcomeIn_Cons_Suc:
  "outcomeIn c lps bp ctx lang (s # ss) w (Suc j) =
     outcomeIn c lps bp ctx lang ss (snd (attempt c lps bp ctx lang s w)) j"
  by (simp add: outcomeIn_def)

lemma outcomeIn_Cons_0:
  "outcomeIn c lps bp ctx lang (s # ss) w 0 = fst (attempt c lps bp ctx lang s w)"
  by (simp add: outcomeIn_def)

lemma strategyLoop_prefix:
  assumes "\<forall>j<length pre. foundOf (outcomeIn c lps bp ctx lang pre w j) \<noteq> length lps"
  shows "strategyLoop c lps bp ctx lang (pre @ rest) w acc tr =
           strategyLoop c lps bp ctx lang rest (worldAfter c lps bp ctx lang pre w)
             (accAfter c lps bp ctx lang pre w acc)
             (tr @ map (strategyRequest lps bp ctx lang) pre)"
  using assms
proof (induction pre arbitrary: w acc tr)
  case Nil
  then show ?case by simp
next
  case (Cons s pre)
  have h0: "foundOf (fst (attempt c lps bp ctx lang s w)) \<noteq> length lps"
    using Cons.prems outcomeIn_Cons_0[of c lps bp ctx lang s pre w] by auto
  have hs: "\<forall>j<length pre. foundOf (outcomeIn c lps bp ctx lang pre (snd (attempt c lps bp ctx lang s w)) j) \<noteq> length lps"
    using Cons.prems outcomeIn_Cons_Suc[of c lps bp ctx lang s pre w] by auto
  show ?case
    using h0 Cons.IH[OF hs] by (simp del: strategyLoop.simps add: strategyLoop_step)
qed

lemma outcomeIn_append_left:
  "j < length xs \<Longrightarrow> outcomeIn c lps bp ctx lang (xs @ ys) w j = outcomeIn c lps bp ctx lang xs w j"
  by (simp add: outcomeIn_def nth_append)

lemma outcomeIn_append_right:
  "outcomeIn c lps bp ctx lang (xs @ ys) w (length xs + j) =
     outcomeIn c lps bp ctx lang ys (worldAfter c lps bp ctx lang xs w) j"
  by (simp add: outcomeIn_def nth_append worldAfter_append)

lemma accAfter_quiet:
  assumes "\<forall>j<length ss. foundOf (outcomeIn c lps bp ctx lang ss w j) = 0"
  shows "accAfter c lps bp ctx lang ss w acc = acc"
  using assms
proof (induction ss arbitrary: w acc)
  case Nil
  then show ?case by simp
next
  case (Cons s ss)
  have h0: "foundOf (fst (attempt c lps bp ctx lang s w)) = 0"
    using Cons.prems outcomeIn_Cons_0[of c lps bp ctx lang s ss w] by auto
  have hs: "\<forall>j<length ss. foundOf (outcomeIn c lps bp ctx lang ss (snd (attempt c lps bp ctx lang s w)) j) = 0"
    using Cons.prems outcomeIn_Cons_Suc[of c lps bp ctx lang s ss w] by auto
  show ?case using h0 Cons.IH[OF hs] by (simp add: mergeFound_def)
qed

lemma responseIn_Cons_0:
  "responseIn c lps bp ctx lang (s # ss) w 0 = fst (mutate c w (strategyRequest lps bp ctx lang s))"
  by (simp add: responseIn_def)


lemma attempt_outcome:
  "fst (attempt c lps bp ctx lang s w) =
     (case fst (mutate c w (strategyRequest lps bp ctx lang s)) of
        Inl e \<Rightarrow> None | Inr resp \<Rightarrow> Some (strategyResult lps resp))"
  by (simp add: attempt_def split: prod.splits sum.splits)

lemma outcomeIn_response:
  "outcomeIn c lps bp ctx lang ss w k =
     (case responseIn c lps bp ctx lang ss w k of
        Inl e \<Rightarrow> None | Inr resp \<Rightarrow> Some (strategyResult lps resp))"
  by (simp add: outcomeIn_def responseIn_def attempt_outcome)


lemma outcome_found_keys:
  assumes "0 < foundOf (outcomeIn c lps bp ctx lang ss w k)"
  shows "set lps - {''__proto__''} \<subseteq> fst ` set (resultOf (outcomeIn c lps bp ctx lang ss w k))"
proof (cases "responseIn c lps bp ctx lang ss w k")
  case (Inl e)
  then show ?thesis using assms by (simp add: outcomeIn_response foundOf_def)
next
  case (Inr resp)
  have "0 < snd (strategyResult lps resp)"
    using assms Inr by (simp add: outcomeIn_response foundOf_def)
  then have "qdata resp \<noteq> None" by (rule strategyResult_found_data)
  then have "set lps - {''__proto__''} \<subseteq> fst ` set (fst (strategyResult lps resp))"
    by (rule strategyResult_keys_lower)
  then show ?thesis using Inr by (simp add: outcomeIn_response resultOf_def)
qed

lemma outcome_distinct:
  "distinct (map fst (resultOf (outcomeIn c lps bp ctx lang ss w k)))"
proof (cases "responseIn c lps bp ctx lang ss w k")
  case (Inl e)
  then show ?thesis by (simp add: outcomeIn_response resultOf_def)
next
  case (Inr resp)
  then show ?thesis using strategyResult_distinct[of lps resp]
    by (simp add: outcomeIn_response resultOf_def)
qed








text \<open>
  After the last strategy that found something, the accumulator agrees with that strategy's
  result on every key the result has.
\<close>

lemma accAfter_last_finder:
  assumes k: "k < length ss"
    and found: "0 < foundOf (outcomeIn c lps bp ctx lang ss w k)"
    and quiet: "\<forall>j. k < j \<and> j < length ss \<longrightarrow> foundOf (outcomeIn c lps bp ctx lang ss w j) = 0"
    and p: "p \<in> fst ` set (resultOf (outcomeIn c lps bp ctx lang ss w k))"
  shows "map_of (accAfter c lps bp ctx lang ss w acc) p = map_of (resultOf (outcomeIn c lps bp ctx lang ss w k)) p"
proof -
  have tk: "take (Suc k) ss = take k ss @ [ss ! k]"
    using k by (rule take_Suc_conv_app_nth)
  have len: "length (take (Suc k) ss) = Suc k" using k by simp
  let ?wk = "worldAfter c lps bp ctx lang (take k ss) w"
  let ?w1 = "worldAfter c lps bp ctx lang (take (Suc k) ss) w"
  let ?r = "outcomeIn c lps bp ctx lang ss w k"
  have at_k: "fst (attempt c lps bp ctx lang (ss ! k) ?wk) = ?r"
    by (simp add: outcomeIn_def)
  have q: "\<forall>j<length (drop (Suc k) ss). foundOf (outcomeIn c lps bp ctx lang (drop (Suc k) ss) ?w1 j) = 0"
  proof (intro allI impI)
    fix j assume j: "j < length (drop (Suc k) ss)"
    have "outcomeIn c lps bp ctx lang (take (Suc k) ss @ drop (Suc k) ss) w (length (take (Suc k) ss) + j)
            = outcomeIn c lps bp ctx lang (drop (Suc k) ss) ?w1 j"
      by (rule outcomeIn_append_right)
    then have "outcomeIn c lps bp ctx lang (drop (Suc k) ss) ?w1 j = outcomeIn c lps bp ctx lang ss w (Suc k + j)"
      using len by simp
    moreover have "k < Suc k + j \<and> Suc k + j < length ss" using j by simp
    ultimately show "foundOf (outcomeIn c lps bp ctx lang (drop (Suc k) ss) ?w1 j) = 0"
      using quiet by simp
  qed
  have "accAfter c lps bp ctx lang (take (Suc k) ss @ drop (Suc k) ss) w acc
          = accAfter c lps bp ctx lang (drop (Suc k) ss) ?w1 (accAfter c lps bp ctx lang (take (Suc k) ss) w acc)"
    by (rule accAfter_append)
  also have "\<dots> = accAfter c lps bp ctx lang (take (Suc k) ss) w acc"
    using q by (rule accAfter_quiet)
  also have "\<dots> = mergeFound (accAfter c lps bp ctx lang (take k ss) w acc) ?r"
    using at_k by (simp add: tk accAfter_append)
  also have "\<dots> = spread (accAfter c lps bp ctx lang (take k ss) w acc) (resultOf ?r)"
    using found by (simp add: mergeFound_def)
  finally have eq: "accAfter c lps bp ctx lang ss w acc
                      = spread (accAfter c lps bp ctx lang (take k ss) w acc) (resultOf ?r)"
    by simp
  have d: "distinct (map fst (resultOf ?r))" by (rule outcome_distinct)
  have "p \<in> dom (map_of (resultOf ?r))"
    using p by (simp add: dom_map_of_conv_image_fst)
  then show ?thesis
    using eq d by (auto simp: map_of_spread map_add_def split: option.splits)
qed

lemma length_pathStrategies: "length pathStrategies = 4"
  by (simp add: pathStrategies_def)

lemma strategyLoop_first_full:
  assumes k: "k < length ss" and ne: "lps \<noteq> []"
    and before: "\<forall>j<k. foundOf (outcomeIn c lps bp ctx lang ss w j) \<noteq> length lps"
    and full: "foundOf (outcomeIn c lps bp ctx lang ss w k) = length lps"
  shows "strategyLoop c lps bp ctx lang ss w acc tr =
           (resultOf (outcomeIn c lps bp ctx lang ss w k),
            worldAfter c lps bp ctx lang (take (Suc k) ss) w,
            tr @ map (strategyRequest lps bp ctx lang) (take (Suc k) ss))"
proof -
  have split: "ss = take k ss @ (ss ! k) # drop (Suc k) ss"
    using k by (rule id_take_nth_drop)
  have lenk: "length (take k ss) = k" using k by simp
  have pre: "\<forall>j<length (take k ss). foundOf (outcomeIn c lps bp ctx lang (take k ss) w j) \<noteq> length lps"
  proof (intro allI impI)
    fix j assume "j < length (take k ss)"
    then have jk: "j < k" by simp
    have "outcomeIn c lps bp ctx lang (take k ss) w j = outcomeIn c lps bp ctx lang ss w j"
      using jk k by (simp add: outcomeIn_def min_def)
    then show "foundOf (outcomeIn c lps bp ctx lang (take k ss) w j) \<noteq> length lps"
      using before jk by simp
  qed
  let ?wk = "worldAfter c lps bp ctx lang (take k ss) w"
  have at_k: "fst (attempt c lps bp ctx lang (ss ! k) ?wk) = outcomeIn c lps bp ctx lang ss w k"
    by (simp add: outcomeIn_def)
  have nonNone: "fst (attempt c lps bp ctx lang (ss ! k) ?wk) \<noteq> None"
  proof
    assume "fst (attempt c lps bp ctx lang (ss ! k) ?wk) = None"
    then have "foundOf (outcomeIn c lps bp ctx lang ss w k) = 0"
      using at_k by (simp add: foundOf_def)
    then show False using full ne by simp
  qed
  have tk: "take (Suc k) ss = take k ss @ [ss ! k]"
    using k by (rule take_Suc_conv_app_nth)
  have "strategyLoop c lps bp ctx lang (take k ss @ (ss ! k) # drop (Suc k) ss) w acc tr =
          strategyLoop c lps bp ctx lang ((ss ! k) # drop (Suc k) ss) ?wk
            (accAfter c lps bp ctx lang (take k ss) w acc)
            (tr @ map (strategyRequest lps bp ctx lang) (take k ss))"
    using pre by (rule strategyLoop_prefix)
  also have "\<dots> = (resultOf (outcomeIn c lps bp ctx lang ss w k),
            worldAfter c lps bp ctx lang (take (Suc k) ss) w,
            tr @ map (strategyRequest lps bp ctx lang) (take (Suc k) ss))"
    using full nonNone at_k tk
    by (simp del: strategyLoop.simps add: strategyLoop_step worldAfter_append)
  finally show ?thesis using split by simp
qed

lemma strategyLoop_exhausted:
  assumes "\<forall>j<length ss. foundOf (outcomeIn c lps bp ctx lang ss w j) \<noteq> length lps"
  shows "strategyLoop c lps bp ctx lang ss w acc tr =
           (accAfter c lps bp ctx lang ss w acc, worldAfter c lps bp ctx lang ss w,
            tr @ map (strategyRequest lps bp ctx lang) ss)"
  using strategyLoop_prefix[OF assms, of "[]" acc tr] by simp


text \<open>
  The count of found items is the number of positions at which the answer holds an
  identifier.
\<close>

lemma forEach_count:
  "snd (fold (recordPath d) (enumerate n xs) ((res, fl), m)) =
     m + length (filter (\<lambda>i. lookedUp (Inr \<lparr> qdata = Some d, qerror = None \<rparr>) (n + i) \<noteq> None)
                   [0..<length xs])"
proof (induction xs arbitrary: n res fl m)
  case Nil
  then show ?case by simp
next
  case (Cons x xs)
  let ?look = "\<lambda>i. lookedUp (Inr \<lparr> qdata = Some d, qerror = None \<rparr>) i"
  let ?v = "?look n"
  obtain res' fl' where a: "objAssign x ?v (res, fl) = (res', fl')" by (cases "objAssign x ?v (res, fl)")
  have ih: "snd (fold (recordPath d) (enumerate (Suc n) xs) ((res', fl'), if ?v = None then m else Suc m)) =
     (if ?v = None then m else Suc m) +
       length (filter (\<lambda>i. ?look (Suc n + i) \<noteq> None) [0..<length xs])"
    by (rule Cons.IH)
  have up: "[0..<length (x # xs)] = 0 # map Suc [0..<length xs]"
    by (simp add: upt_conv_Cons map_Suc_upt del: upt_Suc)
  have "length (filter (\<lambda>i. ?look (n + i) \<noteq> None) [0..<length (x # xs)]) =
          (if ?v = None then 0 else 1) + length (filter (\<lambda>i. ?look (Suc n + i) \<noteq> None) [0..<length xs])"
    unfolding up by (simp add: filter_map comp_def)
  then show ?case unfolding forEach_Cons[OF a] ih by simp
qed

lemma strategyResult_count:
  "snd (strategyResult lps resp) =
     length (filter (\<lambda>i. lookedUp (Inr resp) i \<noteq> None) [0..<length lps])"
proof (cases "qdata resp")
  case None
  then show ?thesis by (simp add: strategyResult_def lookedUp_def)
next
  case (Some d)
  have "snd (strategyResult lps resp) = snd (fold (recordPath d) (enumerate 0 lps) (([], False), 0))"
    using Some by (simp add: strategyResult_def split: prod.splits)
  then show ?thesis by (simp add: forEach_count lookedUp_data[OF Some])
qed

lemma foundAt_count:
  "foundAt c lps bp ctx lang w k =
     length (filter (\<lambda>i. lookedUp (responseAt c lps bp ctx lang w k) i \<noteq> None) [0..<length lps])"
proof (cases "responseIn c lps bp ctx lang pathStrategies w k")
  case (Inl e)
  then show ?thesis
    by (simp add: foundAt_def responseAt_def outcomeIn_response foundOf_def lookedUp_def)
next
  case (Inr resp)
  then show ?thesis
    by (simp add: foundAt_def responseAt_def outcomeIn_response foundOf_def strategyResult_count)
qed

subsection \<open>Call bound, exhaustion and later strategies\<close>



text \<open>
  The own properties of a result are enumerated with the keys that are array indices first,
  in ascending numeric order, then the other keys in the order of their creation.
\<close>

lemma resolver_index_keys_example:
  "fst (resolveLocalDatasourcePaths (Some (scriptedClient indexScript))
      [''Data/Text 1'', ''10'', ''2''] ''/sitecore/content/Home'' ''ctx'' ''en'' 0)
     = [(''2'', Some ''C3''), (''10'', Some ''B2''), (''Data/Text 1'', Some ''A1'')]"
  by code_simp





text \<open>
  Claim C1 as stated fails: strategy 0 resolves the first path to \<open>A1\<close> (and not the second),
  strategy 1 resolves both paths, and the resolver returns strategy 1's map, in which the
  first path has the value \<open>B2\<close>.
\<close>

theorem resolver_write_once_counterexample:
  "map_of (resultAt (scriptedClient overrideScript) [''Data/Text 1'', ''Data/Text 2'']
             ''/sitecore/content/Home'' ''ctx'' ''en'' 0 0) ''Data/Text 1'' = Some (Some ''A1'') \<and>
   map_of (fst (resolveLocalDatasourcePaths (Some (scriptedClient overrideScript))
             [''Data/Text 1'', ''Data/Text 2''] ''/sitecore/content/Home'' ''ctx'' ''en'' 0)) ''Data/Text 1''
     = Some (Some ''B2'')"
  by code_simp

text \<open>
  A later strategy that resolves only some paths writes its whole result, \<open>null\<close> entries
  included, over the accumulator: here the first path, resolved by strategy 0, ends as \<open>null\<close>.
\<close>

lemma resolver_partial_overwrite_example:
  "map_of (resultAt (scriptedClient alternatingScript) [''Data/Text 1'', ''Data/Text 2'']
             ''/sitecore/content/Home'' ''ctx'' ''en'' 0 0) ''Data/Text 1'' = Some (Some ''A1'') \<and>
   fst (resolveLocalDatasourcePaths (Some (scriptedClient alternatingScript))
             [''Data/Text 1'', ''Data/Text 2''] ''/sitecore/content/Home'' ''ctx'' ''en'' 0)
     = [(''Data/Text 1'', None), (''Data/Text 2'', Some ''C3'')]"
  by code_simp


text \<open>
  The key \<open>__proto__\<close> can be absent from the result of the last strategy that found
  something and still be a key of the final map: with the path \<open>__proto__\<close> given twice,
  strategy 0 (no identifier at the first position, one at the second) leaves an entry for it,
  and strategy 1 (an identifier at the first position, none at the second) leaves none.
\<close>

lemma resolver_proto_entry_example:
  "foundAt (scriptedClient protoScript) [''__proto__'', ''__proto__'']
      ''/sitecore/content/Home'' ''ctx'' ''en'' 0 1 = 1 \<and>
   resultAt (scriptedClient protoScript) [''__proto__'', ''__proto__'']
      ''/sitecore/content/Home'' ''ctx'' ''en'' 0 1 = [] \<and>
   foundAt (scriptedClient protoScript) [''__proto__'', ''__proto__'']
      ''/sitecore/content/Home'' ''ctx'' ''en'' 0 2 = 0 \<and>
   foundAt (scriptedClient protoScript) [''__proto__'', ''__proto__'']
      ''/sitecore/content/Home'' ''ctx'' ''en'' 0 3 = 0 \<and>
   fst (resolveLocalDatasourcePaths (Some (scriptedClient protoScript))
      [''__proto__'', ''__proto__''] ''/sitecore/content/Home'' ''ctx'' ''en'' 0)
     = [(''__proto__'', Some ''A1'')]"
  by code_simp

text \<open>
  Claim C1, amended. Let strategy \<open>k\<close> resolve at least one path, no earlier strategy having
  resolved all of them. If every later strategy throws, gets no data or resolves no path,
  the final result gives every input path the value strategy \<open>k\<close> gave it; so a path resolved
  by strategy \<open>k\<close> keeps its identifier. (The path \<open>__proto__\<close> is covered when the result of
  strategy \<open>k\<close> has an entry for it, which an assignment to a plain object does not always
  create.) If a later strategy \<open>k'\<close> is the first to resolve all paths, the resolver returns
  the result of strategy \<open>k'\<close> instead.
\<close>

theorem resolver_later_strategies:
  assumes "client = Some c" and "lps \<noteq> []" and "k < 4"
    and "\<forall>j<k. foundAt c lps bp ctx lang w j \<noteq> length lps"
    and "0 < foundAt c lps bp ctx lang w k"
  shows "((\<forall>j. k < j \<and> j < 4 \<longrightarrow> foundAt c lps bp ctx lang w j = 0) \<longrightarrow>
            (\<forall>p\<in>set lps. (p = ''__proto__'' \<longrightarrow> p \<in> fst ` set (resultAt c lps bp ctx lang w k)) \<longrightarrow>
                 map_of (fst (resolveLocalDatasourcePaths client lps bp ctx lang w)) p
                   = map_of (resultAt c lps bp ctx lang w k) p)) \<and>
         (\<forall>k'. k < k' \<and> k' < 4 \<and>
               (\<forall>j. k \<le> j \<and> j < k' \<longrightarrow> foundAt c lps bp ctx lang w j \<noteq> length lps) \<and>
               foundAt c lps bp ctx lang w k' = length lps \<longrightarrow>
               fst (resolveLocalDatasourcePaths client lps bp ctx lang w) = resultAt c lps bp ctx lang w k')"
proof (intro conjI impI allI ballI)
  fix p
  assume quiet: "\<forall>j. k < j \<and> j < 4 \<longrightarrow> foundAt c lps bp ctx lang w j = 0" and p: "p \<in> set lps"
    and pr: "p = ''__proto__'' \<longrightarrow> p \<in> fst ` set (resultAt c lps bp ctx lang w k)"
  have kl: "k < length pathStrategies" using assms(3) by (simp add: length_pathStrategies)
  have before: "\<forall>j<k. foundOf (outcomeIn c lps bp ctx lang pathStrategies w j) \<noteq> length lps"
    using assms(4) by (simp add: foundAt_def)
  show "map_of (fst (resolveLocalDatasourcePaths client lps bp ctx lang w)) p
          = map_of (resultAt c lps bp ctx lang w k) p"
  proof (cases "foundAt c lps bp ctx lang w k = length lps")
    case True
    then have full: "foundOf (outcomeIn c lps bp ctx lang pathStrategies w k) = length lps"
      by (simp add: foundAt_def)
    show ?thesis
      using assms(1,2) strategyLoop_first_full[OF kl assms(2) before full, of "[]" "[]"]
      by (simp add: resolveLocalDatasourcePaths_def resultAt_def)
  next
    case False
    have ex: "\<forall>j<length pathStrategies. foundOf (outcomeIn c lps bp ctx lang pathStrategies w j) \<noteq> length lps"
    proof (intro allI impI)
      fix j assume j: "j < length pathStrategies"
      consider "j < k" | "j = k" | "k < j" by arith
      then show "foundOf (outcomeIn c lps bp ctx lang pathStrategies w j) \<noteq> length lps"
      proof cases
        case 1
        then show ?thesis using before by simp
      next
        case 2
        then show ?thesis using False by (simp add: foundAt_def)
      next
        case 3
        then have "foundAt c lps bp ctx lang w j = 0"
          using quiet j by (simp add: length_pathStrategies)
        then show ?thesis using assms(2) by (simp add: foundAt_def)
      qed
    qed
    have run: "fst (resolveLocalDatasourcePaths client lps bp ctx lang w)
                 = accAfter c lps bp ctx lang pathStrategies w []"
      using assms(1,2) strategyLoop_exhausted[OF ex, of "[]" "[]"]
      by (simp add: resolveLocalDatasourcePaths_def)
    have found: "0 < foundOf (outcomeIn c lps bp ctx lang pathStrategies w k)"
      using assms(5) by (simp add: foundAt_def)
    have q: "\<forall>j. k < j \<and> j < length pathStrategies \<longrightarrow> foundOf (outcomeIn c lps bp ctx lang pathStrategies w j) = 0"
      using quiet by (simp add: foundAt_def length_pathStrategies)
    have "set lps - {''__proto__''} \<subseteq> fst ` set (resultOf (outcomeIn c lps bp ctx lang pathStrategies w k))"
      using found by (rule outcome_found_keys)
    then have mem: "p \<in> fst ` set (resultOf (outcomeIn c lps bp ctx lang pathStrategies w k))"
      using p pr by (auto simp: resultAt_def)
    show ?thesis
      using accAfter_last_finder[OF kl found q mem, of "[]"] run by (simp add: resultAt_def)
  qed
next
  fix k'
  assume h: "k < k' \<and> k' < 4 \<and>
               (\<forall>j. k \<le> j \<and> j < k' \<longrightarrow> foundAt c lps bp ctx lang w j \<noteq> length lps) \<and>
               foundAt c lps bp ctx lang w k' = length lps"
  have kl: "k' < length pathStrategies" using h by (simp add: length_pathStrategies)
  have before: "\<forall>j<k'. foundOf (outcomeIn c lps bp ctx lang pathStrategies w j) \<noteq> length lps"
  proof (intro allI impI)
    fix j assume j: "j < k'"
    show "foundOf (outcomeIn c lps bp ctx lang pathStrategies w j) \<noteq> length lps"
    proof (cases "j < k")
      case True
      then show ?thesis using assms(4) by (simp add: foundAt_def)
    next
      case False
      then have "k \<le> j \<and> j < k'" using j by simp
      then have "foundAt c lps bp ctx lang w j \<noteq> length lps" using h by blast
      then show ?thesis by (simp add: foundAt_def)
    qed
  qed
  have full: "foundOf (outcomeIn c lps bp ctx lang pathStrategies w k') = length lps"
    using h by (simp add: foundAt_def)
  show "fst (resolveLocalDatasourcePaths client lps bp ctx lang w) = resultAt c lps bp ctx lang w k'"
    using assms(1,2) strategyLoop_first_full[OF kl assms(2) before full, of "[]" "[]"]
    by (simp add: resolveLocalDatasourcePaths_def resultAt_def)
qed

text \<open>
  Two runs for C1: later strategies that throw or find nothing leave the identifier found by
  strategy 0 in place; a later strategy that resolves both paths replaces the result.
\<close>

theorem resolver_later_strategies_witness:
  "map_of (fst (resolveLocalDatasourcePaths (Some (scriptedClient partialScript))
      [''Data/Text 1'', ''Data/Text 2''] ''/sitecore/content/Home'' ''ctx'' ''en'' 0)) ''Data/Text 1''
     = Some (Some ''A1'') \<and>
   fst (resolveLocalDatasourcePaths (Some (scriptedClient overrideScript))
      [''Data/Text 1'', ''Data/Text 2''] ''/sitecore/content/Home'' ''ctx'' ''en'' 0)
     = [(''Data/Text 1'', Some ''B2''), (''Data/Text 2'', Some ''C3'')]"
proof -
  let ?c = "scriptedClient partialScript"
  let ?o = "scriptedClient overrideScript"
  let ?lps = "[''Data/Text 1'', ''Data/Text 2'']"
  have p0: "0 < foundAt ?c ?lps ''/sitecore/content/Home'' ''ctx'' ''en'' 0 0" by code_simp
  have p1: "foundAt ?c ?lps ''/sitecore/content/Home'' ''ctx'' ''en'' 0 1 = 0" by code_simp
  have p2: "foundAt ?c ?lps ''/sitecore/content/Home'' ''ctx'' ''en'' 0 2 = 0" by code_simp
  have p3: "foundAt ?c ?lps ''/sitecore/content/Home'' ''ctx'' ''en'' 0 3 = 0" by code_simp
  have quiet: "\<forall>j. 0 < j \<and> j < 4 \<longrightarrow> foundAt ?c ?lps ''/sitecore/content/Home'' ''ctx'' ''en'' 0 j = 0"
  proof (intro allI impI)
    fix j :: nat assume "0 < j \<and> j < 4"
    then have "j = 1 \<or> j = 2 \<or> j = 3" by arith
    then show "foundAt ?c ?lps ''/sitecore/content/Home'' ''ctx'' ''en'' 0 j = 0"
      using p1 p2 p3 by auto
  qed
  have none0: "\<forall>j<(0::nat). foundAt ?c ?lps ''/sitecore/content/Home'' ''ctx'' ''en'' 0 j \<noteq> length ?lps"
    by simp
  have r0: "map_of (resultAt ?c ?lps ''/sitecore/content/Home'' ''ctx'' ''en'' 0 0) ''Data/Text 1'' = Some (Some ''A1'')"
    by code_simp
  have mem: "''Data/Text 1'' \<in> set ?lps" by simp
  have np: "''Data/Text 1'' = ''__proto__'' \<longrightarrow>
              ''Data/Text 1'' \<in> fst ` set (resultAt ?c ?lps ''/sitecore/content/Home'' ''ctx'' ''en'' 0 0)"
    by simp
  have a: "map_of (fst (resolveLocalDatasourcePaths (Some ?c) ?lps ''/sitecore/content/Home'' ''ctx'' ''en'' 0)) ''Data/Text 1''
             = map_of (resultAt ?c ?lps ''/sitecore/content/Home'' ''ctx'' ''en'' 0 0) ''Data/Text 1''"
  proof -
    have ne: "?lps \<noteq> []" by simp
    have k4: "(0::nat) < 4" by simp
    from resolver_later_strategies[OF refl ne k4 none0 p0]
    have "(\<forall>j. 0 < j \<and> j < 4 \<longrightarrow> foundAt ?c ?lps ''/sitecore/content/Home'' ''ctx'' ''en'' 0 j = 0) \<longrightarrow>
            (\<forall>p\<in>set ?lps. (p = ''__proto__'' \<longrightarrow> p \<in> fst ` set (resultAt ?c ?lps ''/sitecore/content/Home'' ''ctx'' ''en'' 0 0)) \<longrightarrow>
                 map_of (fst (resolveLocalDatasourcePaths (Some ?c) ?lps ''/sitecore/content/Home'' ''ctx'' ''en'' 0)) p
                   = map_of (resultAt ?c ?lps ''/sitecore/content/Home'' ''ctx'' ''en'' 0 0) p)"
      by (rule conjunct1)
    then have "\<forall>p\<in>set ?lps. (p = ''__proto__'' \<longrightarrow> p \<in> fst ` set (resultAt ?c ?lps ''/sitecore/content/Home'' ''ctx'' ''en'' 0 0)) \<longrightarrow>
                 map_of (fst (resolveLocalDatasourcePaths (Some ?c) ?lps ''/sitecore/content/Home'' ''ctx'' ''en'' 0)) p
                   = map_of (resultAt ?c ?lps ''/sitecore/content/Home'' ''ctx'' ''en'' 0 0) p"
      using quiet by (rule mp)
    then have "(''Data/Text 1'' = ''__proto__'' \<longrightarrow>
                  ''Data/Text 1'' \<in> fst ` set (resultAt ?c ?lps ''/sitecore/content/Home'' ''ctx'' ''en'' 0 0)) \<longrightarrow>
                 map_of (fst (resolveLocalDatasourcePaths (Some ?c) ?lps ''/sitecore/content/Home'' ''ctx'' ''en'' 0)) ''Data/Text 1''
                   = map_of (resultAt ?c ?lps ''/sitecore/content/Home'' ''ctx'' ''en'' 0 0) ''Data/Text 1''"
      using mem by (rule bspec)
    then show ?thesis using np by (rule mp)
  qed
  have o0: "0 < foundAt ?o ?lps ''/sitecore/content/Home'' ''ctx'' ''en'' 0 0" by code_simp
  have o0': "foundAt ?o ?lps ''/sitecore/content/Home'' ''ctx'' ''en'' 0 0 \<noteq> length ?lps" by code_simp
  have o1: "foundAt ?o ?lps ''/sitecore/content/Home'' ''ctx'' ''en'' 0 1 = length ?lps" by code_simp
  have none0o: "\<forall>j<(0::nat). foundAt ?o ?lps ''/sitecore/content/Home'' ''ctx'' ''en'' 0 j \<noteq> length ?lps"
    by simp
  have mid: "\<forall>j. (0::nat) \<le> j \<and> j < 1 \<longrightarrow> foundAt ?o ?lps ''/sitecore/content/Home'' ''ctx'' ''en'' 0 j \<noteq> length ?lps"
    using o0' by auto
  have hyp: "(0::nat) < 1 \<and> (1::nat) < 4 \<and>
       (\<forall>j. 0 \<le> j \<and> j < 1 \<longrightarrow> foundAt ?o ?lps ''/sitecore/content/Home'' ''ctx'' ''en'' 0 j \<noteq> length ?lps) \<and>
       foundAt ?o ?lps ''/sitecore/content/Home'' ''ctx'' ''en'' 0 1 = length ?lps"
    using mid o1 by simp
  have b: "fst (resolveLocalDatasourcePaths (Some ?o) ?lps ''/sitecore/content/Home'' ''ctx'' ''en'' 0)
             = resultAt ?o ?lps ''/sitecore/content/Home'' ''ctx'' ''en'' 0 1"
  proof -
    have ne: "?lps \<noteq> []" by simp
    have k4: "(0::nat) < 4" by simp
    from resolver_later_strategies[OF refl ne k4 none0o o0]
    have "\<forall>k'. 0 < k' \<and> k' < 4 \<and>
               (\<forall>j. 0 \<le> j \<and> j < k' \<longrightarrow> foundAt ?o ?lps ''/sitecore/content/Home'' ''ctx'' ''en'' 0 j \<noteq> length ?lps) \<and>
               foundAt ?o ?lps ''/sitecore/content/Home'' ''ctx'' ''en'' 0 k' = length ?lps \<longrightarrow>
               fst (resolveLocalDatasourcePaths (Some ?o) ?lps ''/sitecore/content/Home'' ''ctx'' ''en'' 0)
                 = resultAt ?o ?lps ''/sitecore/content/Home'' ''ctx'' ''en'' 0 k'"
      by (rule conjunct2)
    then have "0 < (1::nat) \<and> (1::nat) < 4 \<and>
               (\<forall>j. 0 \<le> j \<and> j < 1 \<longrightarrow> foundAt ?o ?lps ''/sitecore/content/Home'' ''ctx'' ''en'' 0 j \<noteq> length ?lps) \<and>
               foundAt ?o ?lps ''/sitecore/content/Home'' ''ctx'' ''en'' 0 1 = length ?lps \<longrightarrow>
               fst (resolveLocalDatasourcePaths (Some ?o) ?lps ''/sitecore/content/Home'' ''ctx'' ''en'' 0)
                 = resultAt ?o ?lps ''/sitecore/content/Home'' ''ctx'' ''en'' 0 1"
      by (rule spec)
    then show ?thesis using hyp by (rule mp)
  qed
  have r1: "resultAt ?o ?lps ''/sitecore/content/Home'' ''ctx'' ''en'' 0 1
              = [(''Data/Text 1'', Some ''B2''), (''Data/Text 2'', Some ''C3'')]"
    by code_simp
  show ?thesis using a r0 b r1 by (simp only: simp_thms)
qed


section \<open>Properties of the source queries and of the cycle\<close>

subsection \<open>Stages of the cycle\<close>

lemma mergeNested_no_data: "qdata original = None \<Longrightarrow> mergeNested original nested = original"
  by (simp add: mergeNested_def split: option.splits)



subsection \<open>The live lookup\<close>

lemma mapThrow_total:
  "\<forall>x\<in>set xs. \<exists>y. f x = Inr y \<Longrightarrow> \<exists>ys. mapThrow f xs = Inr ys"
proof (induction xs)
  case Nil
  then show ?case by simp
next
  case (Cons x xs)
  obtain y where y: "f x = Inr y" using Cons.prems by auto
  obtain ys where ys: "mapThrow f xs = Inr ys" using Cons by auto
  show ?case using y ys by simp
qed

lemma liveRequest_total:
  assumes "\<forall>g\<in>set itemIds. \<exists>s. formatGuidWithHyphens env g = Inr s"
  shows "\<exists>req. liveRequest env itemIds lang = Inr req"
proof -
  have "\<forall>g\<in>set itemIds. \<exists>s. formatGuidForLive env g = Inr s"
    using assms by (simp add: formatGuidForLive_def)
  then obtain guids where "mapThrow (formatGuidForLive env) itemIds = Inr guids"
    using mapThrow_total by blast
  then show ?thesis by (simp add: liveRequest_def)
qed





lemma live_returns:
  assumes "itemIds = [] \<or> (\<exists>req. liveRequest env itemIds lang = Inr req)"
  shows "\<exists>l w' t. getItemsFromLive env client itemIds ctx lang w = (Inr l, w', t)"
proof (cases "itemIds = []")
  case True
  then show ?thesis by (simp add: getItemsFromLive_def del: showNat.simps)
next
  case False
  then obtain req where req: "liveRequest env itemIds lang = Inr req" using assms by blast
  show ?thesis
  proof (cases "LIVE_TOKEN env = []")
    case True
    then show ?thesis using False req by (simp add: getItemsFromLive_def del: showNat.simps)
  next
    case tok: False
    obtain r w' where f: "fetch env w req = (r, w')" by (cases "fetch env w req")
    show ?thesis
    proof (cases r)
      case (Inl e)
      then show ?thesis using False req tok f by (simp add: getItemsFromLive_def del: showNat.simps)
    next
      case (Inr response)
      show ?thesis
      proof (cases "ok response")
        case False
        then show ?thesis using \<open>itemIds \<noteq> []\<close> req tok f Inr by (simp add: getItemsFromLive_def del: showNat.simps)
      next
        case True
        show ?thesis
        proof (cases "json response")
          case (Inl e)
          then show ?thesis using \<open>itemIds \<noteq> []\<close> req tok f Inr True by (simp add: getItemsFromLive_def del: showNat.simps)
        next
          case (Inr result)
          then show ?thesis using \<open>itemIds \<noteq> []\<close> req tok f \<open>r = Inr response\<close> True
            by (simp add: getItemsFromLive_def del: showNat.simps)
        qed
      qed
    qed
  qed
qed

lemma live_total:
  assumes "\<forall>g. \<exists>s. formatGuidWithHyphens env g = Inr s"
  shows "\<exists>l w' t. getItemsFromLive env client itemIds ctx lang w = (Inr l, w', t)"
proof -
  have "\<forall>g\<in>set itemIds. \<exists>s. formatGuidWithHyphens env g = Inr s" using assms by simp
  then have "\<exists>req. liveRequest env itemIds lang = Inr req" by (rule liveRequest_total)
  then have "itemIds = [] \<or> (\<exists>req. liveRequest env itemIds lang = Inr req)" by simp
  then show ?thesis by (rule live_returns)
qed

lemma live_format_throw:
  assumes "itemIds \<noteq> []" and "liveRequest env itemIds lang = Inl e"
  shows "getItemsFromLive env client itemIds ctx lang w = (Inl e, w, [])"
  using assms by (simp add: getItemsFromLive_def del: showNat.simps)

subsection \<open>The fan-out and the nested stage\<close>




lemma nestedStage_cases:
  assumes "nestedItemIds \<noteq> []"
    and "getItemsFromAuthoring (Some c) nestedItemIds ctx lang w = (r, w1, t1)"
  shows "nestedStage env c ctx lang itemIds nestedItemIds a l w =
           (if filterSystemItems r = [] then (Inr (a, l, itemIds), w1, map MutateCall t1)
            else (case getItemsFromLive env (Some c) (filterSystemItems r) ctx lang w1 of
                    (Inl e, w2, t2) \<Rightarrow> (Inl e, w2, map MutateCall t1 @ map FetchCall t2)
                  | (Inr nl, w2, t2) \<Rightarrow>
                      (case getItemsFromAuthoring (Some c) (filterSystemItems r) ctx lang w2 of
                         (na, w3, t3) \<Rightarrow>
                           (Inr (mergeNested a na, mergeNested l nl, itemIds @ filterSystemItems r),
                            w3, map MutateCall t1 @ map FetchCall t2 @ map MutateCall t3))))"
  using assms by (simp add: nestedStage_def Let_def del: showNat.simps)

lemma nestedStage_shape:
  assumes "nestedStage env c ctx lang itemIds nestedItemIds a l w = (Inr (a', l', ids'), w', t)"
  shows "ids' = itemIds @ (if nestedItemIds = [] then []
                else filterSystemItems (fst (getItemsFromAuthoring (Some c) nestedItemIds ctx lang w))) \<and>
         (qdata l = None \<longrightarrow> l' = l)"
proof (cases "nestedItemIds = []")
  case True
  then show ?thesis using assms by (simp add: nestedStage_def)
next
  case False
  obtain r w1 t1 where v: "getItemsFromAuthoring (Some c) nestedItemIds ctx lang w = (r, w1, t1)"
    by (cases "getItemsFromAuthoring (Some c) nestedItemIds ctx lang w") auto
  note eq = nestedStage_cases[OF False v, of env itemIds a l]
  show ?thesis
  proof (cases "filterSystemItems r = []")
    case True
    then show ?thesis using assms eq False v by simp
  next
    case nonempty: False
    obtain x w2 t2 where l2: "getItemsFromLive env (Some c) (filterSystemItems r) ctx lang w1 = (x, w2, t2)"
      by (cases "getItemsFromLive env (Some c) (filterSystemItems r) ctx lang w1") auto
    show ?thesis
    proof (cases x)
      case (Inl e)
      then show ?thesis using assms eq nonempty l2 by simp
    next
      case (Inr nl)
      obtain na w3 t3 where a3: "getItemsFromAuthoring (Some c) (filterSystemItems r) ctx lang w2 = (na, w3, t3)"
        by (cases "getItemsFromAuthoring (Some c) (filterSystemItems r) ctx lang w2") auto
      show ?thesis using assms eq nonempty l2 Inr a3 False v by (auto simp: mergeNested_no_data)
    qed
  qed
qed

lemma nestedStage_returns:
  assumes "\<forall>g. \<exists>s. formatGuidWithHyphens env g = Inr s"
  shows "\<exists>a' l' ids' w' t. nestedStage env c ctx lang itemIds nestedItemIds a l w = (Inr (a', l', ids'), w', t)"
proof (cases "nestedItemIds = []")
  case True
  then show ?thesis by (simp add: nestedStage_def)
next
  case False
  obtain r w1 t1 where v: "getItemsFromAuthoring (Some c) nestedItemIds ctx lang w = (r, w1, t1)"
    by (cases "getItemsFromAuthoring (Some c) nestedItemIds ctx lang w") auto
  note eq = nestedStage_cases[OF False v, of env itemIds a l]
  show ?thesis
  proof (cases "filterSystemItems r = []")
    case True
    then show ?thesis using eq by simp
  next
    case nonempty: False
    have "\<exists>l w' t. getItemsFromLive env (Some c) (filterSystemItems r) ctx lang w1 = (Inr l, w', t)"
      using assms by (rule live_total)
    then obtain nl w2 t2 where l2: "getItemsFromLive env (Some c) (filterSystemItems r) ctx lang w1 = (Inr nl, w2, t2)"
      by blast
    obtain na w3 t3 where a3: "getItemsFromAuthoring (Some c) (filterSystemItems r) ctx lang w2 = (na, w3, t3)"
      by (cases "getItemsFromAuthoring (Some c) (filterSystemItems r) ctx lang w2") auto
    show ?thesis using eq nonempty l2 a3 by simp
  qed
qed

subsection \<open>The cycle\<close>

lemma gatherCycle_stages:
  assumes "initialIds env c specificItemIds w = (Inr (ids, cur, lps, cpp, lang), w1, t1)"
    and "contextIdStage c w1 = (ctx, w2)"
    and "resolveStage c lps cpp ctx lang ids w2 = (ids', w3, t3)"
    and "fanOut env (Some c) ids' ctx lang w3 = (Inr (a, l), w5, t5)"
    and "extractReferences a ids' = (refs, nested)"
    and "nestedStage env c ctx lang ids' nested a l w5 = (Inr (a', l', ids''), w6, t6)"
  shows "gatherCycle env c specificItemIds w =
           (Inr \<lparr> cdAuthoringResult = a', cdLiveResult = l', cdItemIds = ids'',
                  cdCurrentItemId = cur, cdReferencedByMap = refs \<rparr>,
            w6, t1 @ [ApplicationContextQuery] @ t3 @ t5 @ t6)"
  using assms by (simp add: gatherCycle_def)

lemma gatherCycle_fanOut_throw:
  assumes "initialIds env c specificItemIds w = (Inr (ids, cur, lps, cpp, lang), w1, t1)"
    and "contextIdStage c w1 = (ctx, w2)"
    and "resolveStage c lps cpp ctx lang ids w2 = (ids', w3, t3)"
    and "fanOut env (Some c) ids' ctx lang w3 = (Inl e, w5, t5)"
  shows "gatherCycle env c specificItemIds w = (Inl e, w5, t1 @ [ApplicationContextQuery] @ t3 @ t5)"
  using assms by (simp add: gatherCycle_def)


subsection \<open>Failure of one source\<close>

text \<open>
  A throw of the formatting helper is a throw of the live lookup, outside its \<open>try\<close>: the
  fan-out yields no pair of results.
\<close>

lemma fanOut_format_throw:
  assumes "itemIds \<noteq> []" and "liveRequest env itemIds lang = Inl e"
  shows "fst (fanOut env client itemIds ctx lang w) = Inl e"
proof -
  obtain a w1 t1 where a: "getItemsFromAuthoring client itemIds ctx lang w = (a, w1, t1)"
    by (cases "getItemsFromAuthoring client itemIds ctx lang w") auto
  have "getItemsFromLive env client itemIds ctx lang w1 = (Inl e, w1, [])"
    using assms by (rule live_format_throw)
  then show ?thesis using a by (simp add: fanOut_def)
qed

lemma format_throw_example:
  "fst (fetchItemInformation throwingEnv (Some exampleClient) True (Some [''X1'']) exampleState 0)
     = \<lparr> stData = None, stItems = [], stLoading = False, stError = Some ''Invalid GUID'' \<rparr>"
  by code_simp



subsection \<open>Arguments of the live lookup, empty lists and missing identifiers\<close>

text \<open>
  Claim C9. The live lookup depends only on the identifier list and the language (and on the
  live endpoint's configuration and behaviour): two calls that differ only in their client
  and context id arguments issue the same request and return the same result.
\<close>

theorem live_ignores_client_and_context:
  "getItemsFromLive env client1 itemIds sitecoreContextId1 language w
     = getItemsFromLive env client2 itemIds sitecoreContextId2 language w"
  by (simp add: getItemsFromLive_def)

text \<open>
  Claim C10. Called with an empty identifier list, \<open>fetchSpecificItems\<close> sets the error to
  \<open>No item IDs provided\<close> and returns: no call is issued, the world is untouched, and the data,
  items and loading fields of the state keep their values.
\<close>

theorem specific_empty_ids:
  "fetchSpecificItems env client isInitialized [] st w
     = (st\<lparr> stError := Some ''No item IDs provided'' \<rparr>, w, [])"
  by (simp add: fetchSpecificItems_def)

text \<open>
  A run for C10: a state holding a published result keeps it; only the error is set.
\<close>

theorem specific_empty_ids_witness:
  "fetchSpecificItems exampleEnv (Some exampleClient) True [] exampleState 0
     = (\<lparr> stData = Some 2, stItems = [36, 36], stLoading = False,
          stError = Some ''No item IDs provided'' \<rparr>, 0, [])"
  using specific_empty_ids[of exampleEnv "Some exampleClient" True exampleState 0]
  by (simp add: exampleState_def)

text \<open>
  Claim C8. With an initialised client, no explicit identifier list (or an empty one) and a
  page context from which no identifier is extracted, the cycle ends with the error message
  \<open>No item IDs found in current context\<close>, the data cleared to \<open>null\<close>, the item list emptied
  and loading off, after the single page-context query.
\<close>

theorem no_identifiers_fatal:
  assumes "specificItemIds = None \<or> specificItemIds = Some []"
    and "queryPagesContext c w = (Inr pageContext, w')"
    and "extractItemIdsWithLocalPaths env pageContext = Inr extractionResult"
    and "exItemIds extractionResult = []"
  shows "fetchItemInformation env (Some c) True specificItemIds st w
           = (st\<lparr> stLoading := False, stError := Some ''No item IDs found in current context'',
                  stData := None, stItems := [] \<rparr>, w', [PagesContextQuery])"
proof -
  have "initialIds env c specificItemIds w
          = (Inl (ErrorObj ''No item IDs found in current context''), w', [PagesContextQuery])"
    using assms by (auto simp: initialIds_def)
  then have "gatherCycle env c specificItemIds w
          = (Inl (ErrorObj ''No item IDs found in current context''), w', [PagesContextQuery])"
    by (simp add: gatherCycle_def)
  then show ?thesis
    by (simp add: fetchItemInformation_def failed_def errorMessage_def)
qed

text \<open>
  A run for C8: a state holding a published result is cleared when the context yields no
  identifier.
\<close>

theorem no_identifiers_fatal_witness:
  "fetchItemInformation exampleEnv (Some exampleClient) True None exampleState 0
     = (\<lparr> stData = None, stItems = [], stLoading = False,
          stError = Some ''No item IDs found in current context'' \<rparr>, 1, [PagesContextQuery])"
proof -
  have q: "queryPagesContext exampleClient 0 = (Inr (), 1)" by (simp add: exampleClient_def)
  have e: "extractItemIdsWithLocalPaths exampleEnv () = Inr \<lparr> exItemIds = [], exLocalPathsToResolve = [],
             exCurrentPagePath = [], exLanguage = ''en'' \<rparr>"
    by (simp add: exampleEnv_def)
  have n: "exItemIds \<lparr> exItemIds = [], exLocalPathsToResolve = [],
             exCurrentPagePath = [], exLanguage = ''en'' \<rparr> = []" by simp
  have s: "(None :: string list option) = None \<or> (None :: string list option) = Some []" by simp
  show ?thesis
    using no_identifiers_fatal[OF s q e n, of exampleState] by (simp add: exampleState_def)
qed


section \<open>Properties of reference extraction, validation and the unified list\<close>

subsection \<open>Validation of nested candidates\<close>

lemma isSystemItem_iff:
  "isSystemItem p = (prefix ''/sitecore/system/'' p \<or> prefix ''/sitecore/templates/'' p \<or>
                      prefix ''/sitecore/layout/'' p)"
  by (simp add: isSystemItem_def excludedPaths_def)

lemma fold_keepValid_set:
  "set (fold keepValid d acc) =
     set acc \<union> {cleanGuid (nestedId (snd entry)) | entry.
                   entry \<in> set d \<and> \<not> isSystemItem (nestedPath (snd entry)) \<and> nestedPath (snd entry) \<noteq> []}"
proof (induction d arbitrary: acc)
  case Nil
  then show ?case by simp
next
  case (Cons entry d)
  obtain k nestedItem where e: "entry = (k, nestedItem)" by (cases entry)
  show ?case
  proof (cases "\<not> isSystemItem (nestedPath nestedItem) \<and> nestedPath nestedItem \<noteq> []")
    case True
    then have "fold keepValid (entry # d) acc = fold keepValid d (acc @ [cleanGuid (nestedId nestedItem)])"
      using e by (simp add: keepValid_def)
    then show ?thesis using Cons.IH[of "acc @ [cleanGuid (nestedId nestedItem)]"] True e by auto
  next
    case False
    then have "fold keepValid (entry # d) acc = fold keepValid d acc"
      using e by (auto simp: keepValid_def)
    then show ?thesis using Cons.IH[of acc] False e by auto
  qed
qed


lemma fold_keepValid_eq:
  "fold keepValid d acc =
     acc @ map (\<lambda>entry. cleanGuid (nestedId (snd entry)))
             (filter (\<lambda>entry. \<not> isSystemItem (nestedPath (snd entry)) \<and> nestedPath (snd entry) \<noteq> []) d)"
proof (induction d arbitrary: acc)
  case Nil
  then show ?case by simp
next
  case (Cons entry d)
  obtain k nestedItem where e: "entry = (k, nestedItem)" by (cases entry)
  show ?case using Cons.IH e by (simp add: keepValid_def)
qed

text \<open>
  Claim C5. Let \<open>g\<close> be an identifier such that every entry of the validation lookup's
  response carrying \<open>g\<close> (in canonical form) has an empty path or a path starting with
  \<open>/sitecore/system/\<close>, \<open>/sitecore/templates/\<close> or \<open>/sitecore/layout/\<close>. Then \<open>g\<close> is not among
  the validated nested identifiers, and the list the nested stage hands on is the main list
  followed by validated identifiers none of which is \<open>g\<close>; the stage does hand on a list when
  the formatting helper of the live lookup returns. The parents recorded for \<open>g\<close> play no
  part: the stage does not read the reference map.
\<close>

theorem system_paths_filtered:
  assumes "\<forall>entry \<in> set (case qdata nestedAuthoringResult of None \<Rightarrow> [] | Some nestedAuthoringData \<Rightarrow> nestedAuthoringData).
             cleanGuid (nestedId (snd entry)) = g \<longrightarrow>
               nestedPath (snd entry) = [] \<or>
               prefix ''/sitecore/system/'' (nestedPath (snd entry)) \<or>
               prefix ''/sitecore/templates/'' (nestedPath (snd entry)) \<or>
               prefix ''/sitecore/layout/'' (nestedPath (snd entry))"
    and "nestedAuthoringResult = fst (getItemsFromAuthoring (Some c) nestedItemIds ctx lang w)"
  shows "g \<notin> set (filterSystemItems nestedAuthoringResult) \<and>
         (\<forall>a' l' ids'. fst (nestedStage env c ctx lang itemIds nestedItemIds a l w) = Inr (a', l', ids') \<longrightarrow>
            (\<exists>validNestedIds. ids' = itemIds @ validNestedIds \<and> g \<notin> set validNestedIds)) \<and>
         ((\<forall>x. \<exists>s. formatGuidWithHyphens env x = Inr s) \<longrightarrow>
            (\<exists>a' l' ids'. fst (nestedStage env c ctx lang itemIds nestedItemIds a l w) = Inr (a', l', ids')))"
proof -
  have notin: "g \<notin> set (filterSystemItems nestedAuthoringResult)"
  proof (cases "qdata nestedAuthoringResult")
    case None
    then show ?thesis by (simp add: filterSystemItems_def)
  next
    case (Some d)
    have "\<forall>entry\<in>set d. cleanGuid (nestedId (snd entry)) = g \<longrightarrow>
            nestedPath (snd entry) = [] \<or> isSystemItem (nestedPath (snd entry))"
      using assms(1) Some by (simp add: isSystemItem_iff)
    then have "g \<notin> set (fold keepValid d [])"
      by (auto simp: fold_keepValid_set)
    then show ?thesis using Some by (simp add: filterSystemItems_def)
  qed
  let ?valid = "if nestedItemIds = [] then []
                else filterSystemItems (fst (getItemsFromAuthoring (Some c) nestedItemIds ctx lang w))"
  have v: "g \<notin> set ?valid" using notin assms(2) by simp
  have handed: "\<forall>a' l' ids'. fst (nestedStage env c ctx lang itemIds nestedItemIds a l w) = Inr (a', l', ids') \<longrightarrow>
            (\<exists>validNestedIds. ids' = itemIds @ validNestedIds \<and> g \<notin> set validNestedIds)"
  proof (intro allI impI)
    fix a' l' ids'
    assume r: "fst (nestedStage env c ctx lang itemIds nestedItemIds a l w) = Inr (a', l', ids')"
    obtain x w' t where n: "nestedStage env c ctx lang itemIds nestedItemIds a l w = (x, w', t)"
      by (cases "nestedStage env c ctx lang itemIds nestedItemIds a l w") auto
    then have "nestedStage env c ctx lang itemIds nestedItemIds a l w = (Inr (a', l', ids'), w', t)"
      using r by simp
    then have "ids' = itemIds @ ?valid \<and> (qdata l = None \<longrightarrow> l' = l)"
      by (rule nestedStage_shape)
    then have "ids' = itemIds @ ?valid" by (rule conjunct1)
    then have "ids' = itemIds @ ?valid \<and> g \<notin> set ?valid" using v by simp
    then show "\<exists>validNestedIds. ids' = itemIds @ validNestedIds \<and> g \<notin> set validNestedIds"
      by (rule exI)
  qed
  have returns: "(\<forall>x. \<exists>s. formatGuidWithHyphens env x = Inr s) \<longrightarrow>
            (\<exists>a' l' ids'. fst (nestedStage env c ctx lang itemIds nestedItemIds a l w) = Inr (a', l', ids'))"
  proof
    assume "\<forall>x. \<exists>s. formatGuidWithHyphens env x = Inr s"
    then have "\<exists>a' l' ids' w' t.
        nestedStage env c ctx lang itemIds nestedItemIds a l w = (Inr (a', l', ids'), w', t)"
      by (rule nestedStage_returns)
    then obtain a' l' ids' w' t where
      "nestedStage env c ctx lang itemIds nestedItemIds a l w = (Inr (a', l', ids'), w', t)" by blast
    then have "fst (nestedStage env c ctx lang itemIds nestedItemIds a l w) = Inr (a', l', ids')" by simp
    then show "\<exists>a' l' ids'. fst (nestedStage env c ctx lang itemIds nestedItemIds a l w) = Inr (a', l', ids')"
      by (intro exI)
  qed
  show ?thesis using notin handed returns by (intro conjI)
qed

text \<open>
  A run for C5: of two candidates, the one under \<open>/sitecore/templates/\<close> is dropped and the
  content item is appended to the main list.
\<close>

theorem system_paths_filtered_witness:
  "''S1'' \<notin> set (filterSystemItems (fst (getItemsFromAuthoring (Some nestedClient) [''S1'', ''C1''] None ''en'' 0))) \<and>
   fst (nestedStage exampleEnv nestedClient None ''en'' [''P1''] [''S1'', ''C1''] emptyResult emptyResult 0)
     = Inr (\<lparr> qdata = Some [(ItemAlias 0,
                Some \<lparr> itemId = Some ''{s1}'', iname = Some ''FAQ Template'',
                       ipath = Some ''/sitecore/templates/Feature/FAQ'', fieldNodes = None \<rparr>),
               (ItemAlias 1,
                Some \<lparr> itemId = Some ''{c1}'', iname = Some ''FAQ 1'',
                       ipath = Some ''/sitecore/content/Home/Data/FAQ 1'', fieldNodes = None \<rparr>)],
              qerror = None \<rparr>,
            \<lparr> qdata = Some [], qerror = None \<rparr>,
            [''P1'', ''C1'']) \<and>
   (\<exists>validNestedIds. [''P1'', ''C1''] = [''P1''] @ validNestedIds \<and> ''S1'' \<notin> set validNestedIds)"
proof -
  let ?r = "fst (getItemsFromAuthoring (Some nestedClient) [''S1'', ''C1''] None ''en'' 0)"
  let ?a = "\<lparr> qdata = Some [(ItemAlias 0,
                Some \<lparr> itemId = Some ''{s1}'', iname = Some ''FAQ Template'',
                       ipath = Some ''/sitecore/templates/Feature/FAQ'', fieldNodes = None \<rparr>),
               (ItemAlias 1,
                Some \<lparr> itemId = Some ''{c1}'', iname = Some ''FAQ 1'',
                       ipath = Some ''/sitecore/content/Home/Data/FAQ 1'', fieldNodes = None \<rparr>)],
              qerror = None \<rparr>"
  let ?l = "\<lparr> qdata = Some [], qerror = None \<rparr> :: queryResult"
  have h: "\<forall>entry \<in> set (case qdata ?r of None \<Rightarrow> [] | Some nestedAuthoringData \<Rightarrow> nestedAuthoringData).
             cleanGuid (nestedId (snd entry)) = ''S1'' \<longrightarrow>
               nestedPath (snd entry) = [] \<or>
               prefix ''/sitecore/system/'' (nestedPath (snd entry)) \<or>
               prefix ''/sitecore/templates/'' (nestedPath (snd entry)) \<or>
               prefix ''/sitecore/layout/'' (nestedPath (snd entry))"
    by code_simp
  note main = system_paths_filtered[OF h refl, of exampleEnv "[''P1'']" emptyResult emptyResult]
  have n1: "''S1'' \<notin> set (filterSystemItems ?r)"
    using main by (rule conjunct1)
  have fmt: "\<forall>x. \<exists>s. formatGuidWithHyphens exampleEnv x = Inr s" by (simp add: exampleEnv_def)
  have n3: "\<exists>a' l' ids'. fst (nestedStage exampleEnv nestedClient None ''en'' [''P1''] [''S1'', ''C1'']
                              emptyResult emptyResult 0) = Inr (a', l', ids')"
    using mp[OF main[THEN conjunct2, THEN conjunct2] fmt] .
  have run: "fst (nestedStage exampleEnv nestedClient None ''en'' [''P1''] [''S1'', ''C1''] emptyResult emptyResult 0)
     = Inr (?a, ?l, [''P1'', ''C1''])"
    by code_simp
  have n2: "\<exists>validNestedIds. [''P1'', ''C1''] = [''P1''] @ validNestedIds \<and> ''S1'' \<notin> set validNestedIds"
    using mp[OF spec[OF spec[OF spec[OF main[THEN conjunct2, THEN conjunct1]]]] run] .
  show ?thesis using n1 run n2 by (intro conjI)
qed

subsection \<open>Reference extraction\<close>

lemma fold_preserves:
  assumes "\<And>x st. P st \<Longrightarrow> P (f x st)" and "P st"
  shows "P (fold f xs st)"
  using assms(2) by (induction xs arbitrary: st) (simp_all add: assms(1))

lemma fold_establishes:
  assumes "x \<in> set xs" and "\<And>st. P (f x st)" and "\<And>y st. P st \<Longrightarrow> P (f y st)"
  shows "P (fold f xs st)"
  using assms(1)
proof (induction xs arbitrary: st)
  case Nil
  then show ?case by simp
next
  case (Cons y ys)
  show ?case
  proof (cases "x = y")
    case True
    have "P (f y st)" using assms(2) True by simp
    have "P (fold f ys (f y st))"
    proof (rule fold_preserves[where P=P and f=f])
      show "P (f y st)" by fact
    next
      fix z st' assume "P st'"
      then show "P (f z st')" by (rule assms(3))
    qed
    then show ?thesis by simp
  next
    case False
    then have "x \<in> set ys" using Cons.prems by simp
    then have "P (fold f ys (f y st))" by (rule Cons.IH)
    then show ?thesis by simp
  qed
qed

lemma refsOf_update:
  "refsOf (AList.update k v m) g = (if g = k then v else refsOf m g)"
  by (simp add: refsOf_def AList.update_conv')

lemma recordMatch_refs:
  "refsOf (fst (recordMatch parent itemIds m (refs, nested))) g =
     (if g = cleanGuid m \<and> \<not> (\<exists>ref\<in>set (refsOf refs g). pid ref = pid parent)
      then refsOf refs g @ [parent] else refsOf refs g)"
proof -
  let ?c = "cleanGuid m"
  let ?map1 = "if map_of refs ?c = None then AList.update ?c [] refs else refs"
  have m1: "refsOf ?map1 g = refsOf refs g" for g
    by (simp add: refsOf_update) (simp add: refsOf_def)
  have "fst (recordMatch parent itemIds m (refs, nested)) =
          (if \<not> (\<exists>ref\<in>set (refsOf ?map1 ?c). pid ref = pid parent)
           then AList.update ?c (refsOf ?map1 ?c @ [parent]) ?map1 else ?map1)"
    by (simp add: recordMatch_def Let_def)
  then show ?thesis
    by (simp add: refsOf_update m1)
qed

lemma recordMatch_queue:
  "snd (recordMatch parent itemIds m (refs, nested)) =
     (if cleanGuid m \<notin> set itemIds \<and> cleanGuid m \<notin> set nested then nested @ [cleanGuid m] else nested)"
  by (simp add: recordMatch_def Let_def)

lemma recordMatch_records: "recorded (cleanGuid m) (pid parent) (recordMatch parent itemIds m st)"
proof -
  obtain refs nested where st: "st = (refs, nested)" by (cases st)
  show ?thesis unfolding recorded_def st recordMatch_refs by auto
qed

lemma recordMatch_keeps_recorded:
  "recorded g p st \<Longrightarrow> recorded g p (recordMatch parent itemIds m st)"
proof -
  assume a: "recorded g p st"
  obtain refs nested where st: "st = (refs, nested)" by (cases st)
  show ?thesis using a unfolding recorded_def st recordMatch_refs by auto
qed

lemma recordMatch_keeps_distinct:
  "refsDistinct st \<Longrightarrow> refsDistinct (recordMatch parent itemIds m st)"
proof -
  assume a: "refsDistinct st"
  obtain refs nested where st: "st = (refs, nested)" by (cases st)
  show ?thesis using a unfolding refsDistinct_def st recordMatch_refs by auto
qed

lemma recordMatch_keeps_queue:
  "queueClean itemIds st \<Longrightarrow> queueClean itemIds (recordMatch parent itemIds m st)"
proof -
  assume a: "queueClean itemIds st"
  obtain refs nested where st: "st = (refs, nested)" by (cases st)
  show ?thesis using a unfolding queueClean_def st recordMatch_queue by auto
qed

text \<open>Lifting a property kept by every match to fields, items and the whole extraction.\<close>

lemma scanField_preserves:
  assumes "\<And>parent m st. P st \<Longrightarrow> P (recordMatch parent itemIds m st)" and "P st"
  shows "P (scanField parent itemIds f st)"
proof -
  have "P (fold (recordMatch parent itemIds) vs st)" for vs
  proof (rule fold_preserves[where P=P and f="recordMatch parent itemIds"])
    show "P st" by (rule assms(2))
  next
    fix x st' assume "P st'"
    then show "P (recordMatch parent itemIds x st')" by (rule assms(1))
  qed
  then show ?thesis using assms(2) by (simp add: scanField_def split: option.splits)
qed

lemma scanItem_preserves:
  assumes "\<And>parent m st. P st \<Longrightarrow> P (recordMatch parent itemIds m st)" and "P st"
  shows "P (scanItem itemIds entry st)"
proof -
  have "\<And>parent nodes. P (fold (scanField parent itemIds) nodes st)"
  proof -
    fix parent nodes
    show "P (fold (scanField parent itemIds) nodes st)"
    proof (rule fold_preserves[where P=P and f="scanField parent itemIds"])
      fix x st' assume "P st'"
      show "P (scanField parent itemIds x st')"
      proof (rule scanField_preserves[where P=P])
        show "P st'" by fact
      next
        fix parent' m' st'' assume "P st''"
        then show "P (recordMatch parent' itemIds m' st'')" by (rule assms(1))
      qed
    next
      show "P st" by (rule assms(2))
    qed
  qed
  then show ?thesis using assms(2) by (simp add: scanItem_def split: option.splits)
qed

lemma extractReferences_preserves:
  assumes "\<And>parent m st. P st \<Longrightarrow> P (recordMatch parent itemIds m st)" and "P ([], [])"
  shows "P (extractReferences authoringResult itemIds)"
proof (cases "qdata authoringResult")
  case None
  then show ?thesis using assms(2) by (simp add: extractReferences_def)
next
  case (Some d)
  have "P (fold (scanItem itemIds) (map snd d) ([], []))"
  proof (rule fold_preserves[where P=P and f="scanItem itemIds"])
    fix x st' assume "P st'"
    show "P (scanItem itemIds x st')"
    proof (rule scanItem_preserves[where P=P])
      show "P st'" by fact
    next
      fix parent' m' st'' assume "P st''"
      then show "P (recordMatch parent' itemIds m' st'')" by (rule assms(1))
    qed
  next
    show "P ([], [])" by (rule assms(2))
  qed
  then show ?thesis using Some by (simp add: extractReferences_def)
qed

lemma scanField_records:
  assumes "fvalue f = Some v" and "v \<noteq> []" and "\<not> isSystemField f" and "m \<in> set (guidMatches v)"
  shows "recorded (cleanGuid m) (pid parent) (scanField parent itemIds f st)"
proof -
  have "recorded (cleanGuid m) (pid parent) (fold (recordMatch parent itemIds) (guidMatches v) st)"
  proof (rule fold_establishes[where P="recorded (cleanGuid m) (pid parent)" and f="recordMatch parent itemIds" and x=m])
    show "m \<in> set (guidMatches v)" by (rule assms(4))
  next
    fix st'
    show "recorded (cleanGuid m) (pid parent) (recordMatch parent itemIds m st')"
      by (rule recordMatch_records)
  next
    fix y st' assume "recorded (cleanGuid m) (pid parent) st'"
    then show "recorded (cleanGuid m) (pid parent) (recordMatch parent itemIds y st')"
      by (rule recordMatch_keeps_recorded)
  qed
  then show ?thesis using assms(1-3) by (simp add: scanField_def)
qed

lemma scanItem_records:
  assumes "fieldNodes it = Some nodes" and "f \<in> set nodes"
    and "fvalue f = Some v" and "v \<noteq> []" and "\<not> isSystemField f" and "m \<in> set (guidMatches v)"
  shows "recorded (cleanGuid m) (pid (parentInfoOf it nodes)) (scanItem itemIds (Some it) st)"
proof -
  have "recorded (cleanGuid m) (pid (parentInfoOf it nodes))
          (fold (scanField (parentInfoOf it nodes) itemIds) nodes st)"
  proof (rule fold_establishes[where P="recorded (cleanGuid m) (pid (parentInfoOf it nodes))"
        and f="scanField (parentInfoOf it nodes) itemIds" and x=f])
    show "f \<in> set nodes" by (rule assms(2))
  next
    fix st'
    show "recorded (cleanGuid m) (pid (parentInfoOf it nodes)) (scanField (parentInfoOf it nodes) itemIds f st')"
      using assms(3-6) by (rule scanField_records)
  next
    fix y st'
    assume "recorded (cleanGuid m) (pid (parentInfoOf it nodes)) st'"
    show "recorded (cleanGuid m) (pid (parentInfoOf it nodes)) (scanField (parentInfoOf it nodes) itemIds y st')"
    proof (rule scanField_preserves[where P="recorded (cleanGuid m) (pid (parentInfoOf it nodes))"])
      show "recorded (cleanGuid m) (pid (parentInfoOf it nodes)) st'" by fact
    next
      fix parent' m' st'' assume "recorded (cleanGuid m) (pid (parentInfoOf it nodes)) st''"
      then show "recorded (cleanGuid m) (pid (parentInfoOf it nodes)) (recordMatch parent' itemIds m' st'')"
        by (rule recordMatch_keeps_recorded)
    qed
  qed
  then show ?thesis using assms(1) by (simp add: scanItem_def)
qed

lemma extractReferences_records:
  assumes "qdata authoringResult = Some authoringData" and "(k, Some it) \<in> set authoringData"
    and "fieldNodes it = Some nodes" and "f \<in> set nodes"
    and "fvalue f = Some v" and "v \<noteq> []" and "\<not> isSystemField f" and "m \<in> set (guidMatches v)"
  shows "recorded (cleanGuid m) (pid (parentInfoOf it nodes)) (extractReferences authoringResult itemIds)"
proof -
  have mem: "Some it \<in> set (map snd authoringData)"
    using assms(2) by force
  have "recorded (cleanGuid m) (pid (parentInfoOf it nodes))
          (fold (scanItem itemIds) (map snd authoringData) ([], []))"
  proof (rule fold_establishes[where P="recorded (cleanGuid m) (pid (parentInfoOf it nodes))"
        and f="scanItem itemIds" and x="Some it"])
    show "Some it \<in> set (map snd authoringData)" by (rule mem)
  next
    fix st'
    show "recorded (cleanGuid m) (pid (parentInfoOf it nodes)) (scanItem itemIds (Some it) st')"
      using assms(3-8) by (rule scanItem_records)
  next
    fix y st'
    assume "recorded (cleanGuid m) (pid (parentInfoOf it nodes)) st'"
    show "recorded (cleanGuid m) (pid (parentInfoOf it nodes)) (scanItem itemIds y st')"
    proof (rule scanItem_preserves[where P="recorded (cleanGuid m) (pid (parentInfoOf it nodes))"])
      show "recorded (cleanGuid m) (pid (parentInfoOf it nodes)) st'" by fact
    next
      fix parent' m' st'' assume "recorded (cleanGuid m) (pid (parentInfoOf it nodes)) st''"
      then show "recorded (cleanGuid m) (pid (parentInfoOf it nodes)) (recordMatch parent' itemIds m' st'')"
        by (rule recordMatch_keeps_recorded)
    qed
  qed
  then show ?thesis using assms(1) by (simp add: extractReferences_def)
qed


lemma pid_parentInfoOf:
  "pid (parentInfoOf it nodes) = (case itemId it of None \<Rightarrow> [] | Some i \<Rightarrow> cleanGuid i)"
  by (simp add: parentInfoOf_def Let_def)

text \<open>
  Claim C2. For every match \<open>m\<close> of the identifier pattern in a non-empty value of a field
  that is not a system field, of an item of the authoring response: if the canonical form of
  \<open>m\<close> is in the main identifier list, it is not in the nested queue; in every case the
  child-to-parents map lists for it a parent whose id is the canonical form of the
  discovering item's \<open>itemId\<close> (the empty string when the item has none); and that list holds
  no two parents of the same id.
\<close>

theorem reference_extraction:
  assumes "qdata authoringResult = Some authoringData" and "(k, Some it) \<in> set authoringData"
    and "fieldNodes it = Some nodes" and "f \<in> set nodes"
    and "fvalue f = Some v" and "v \<noteq> []" and "\<not> isSystemField f" and "m \<in> set (guidMatches v)"
  shows "(cleanGuid m \<in> set itemIds \<longrightarrow>
            cleanGuid m \<notin> set (snd (extractReferences authoringResult itemIds))) \<and>
         (\<exists>ref\<in>set (refsOf (fst (extractReferences authoringResult itemIds)) (cleanGuid m)).
            pid ref = (case itemId it of None \<Rightarrow> [] | Some i \<Rightarrow> cleanGuid i)) \<and>
         distinct (map pid (refsOf (fst (extractReferences authoringResult itemIds)) (cleanGuid m)))"
proof -
  have q: "queueClean itemIds (extractReferences authoringResult itemIds)"
  proof (rule extractReferences_preserves[where P="queueClean itemIds"])
    show "queueClean itemIds ([], [])" by (simp add: queueClean_def)
  next
    fix parent' m' st' assume "queueClean itemIds st'"
    then show "queueClean itemIds (recordMatch parent' itemIds m' st')" by (rule recordMatch_keeps_queue)
  qed
  have d: "refsDistinct (extractReferences authoringResult itemIds)"
  proof (rule extractReferences_preserves[where P=refsDistinct])
    show "refsDistinct ([], [])" by (simp add: refsDistinct_def refsOf_def)
  next
    fix parent' m' st' assume "refsDistinct st'"
    then show "refsDistinct (recordMatch parent' itemIds m' st')" by (rule recordMatch_keeps_distinct)
  qed
  have "recorded (cleanGuid m) (pid (parentInfoOf it nodes)) (extractReferences authoringResult itemIds)"
    using assms by (rule extractReferences_records)
  then have r: "recorded (cleanGuid m) (case itemId it of None \<Rightarrow> [] | Some i \<Rightarrow> cleanGuid i)
                  (extractReferences authoringResult itemIds)"
    by (simp add: pid_parentInfoOf)
  show ?thesis
    using q d r unfolding queueClean_def refsDistinct_def recorded_def by blast
qed

text \<open>
  A run for C2: a field value of the page item names an identifier of the main list (in
  braces, lower case) and a new one; both get the page, under its canonical id, as parent,
  and only the new one is queued.
\<close>

theorem reference_extraction_witness:
  "extractReferences (fst (getItemsFromAuthoring (Some echoClient) [pageId, relatedId] None ''en'' 0))
     [pageId, relatedId]
   = ([(''AAAAAAAA-BBBB-CCCC-DDDD-EEEEEEEEEEEE'',
        [\<lparr> pid = ''11111111-1111-1111-1111-111111111111'', pname = ''Item'', displayName = None,
            ppath = ''/sitecore/content/Home/11111111-1111-1111-1111-111111111111'' \<rparr>]),
       (''F1111111-2222-3333-4444-555555555555'',
        [\<lparr> pid = ''11111111-1111-1111-1111-111111111111'', pname = ''Item'', displayName = None,
            ppath = ''/sitecore/content/Home/11111111-1111-1111-1111-111111111111'' \<rparr>])],
      [''F1111111-2222-3333-4444-555555555555'']) \<and>
   relatedId \<notin> set (snd (extractReferences
       (fst (getItemsFromAuthoring (Some echoClient) [pageId, relatedId] None ''en'' 0)) [pageId, relatedId])) \<and>
   itemId (itemFor pageId) = Some ''{11111111-1111-1111-1111-111111111111}''"
proof -
  let ?r = "fst (getItemsFromAuthoring (Some echoClient) [pageId, relatedId] None ''en'' 0)"
  let ?m = "''{aaaaaaaa-bbbb-cccc-dddd-eeeeeeeeeeee}''"
  let ?v = "''Related: {aaaaaaaa-bbbb-cccc-dddd-eeeeeeeeeeee}, and F1111111-2222-3333-4444-555555555555''"
  have h1: "qdata ?r = Some [(ItemAlias 0, Some (itemFor pageId)), (ItemAlias 1, Some (itemFor relatedId))]"
    by code_simp
  have h2: "(ItemAlias 0, Some (itemFor pageId)) \<in> set [(ItemAlias 0, Some (itemFor pageId)), (ItemAlias 1, Some (itemFor relatedId))]"
    by simp
  have h3: "fieldNodes (itemFor pageId) = Some [relatedField]" by (simp add: itemFor_def)
  have h4: "relatedField \<in> set [relatedField]" by simp
  have h5: "fvalue relatedField = Some ?v" by (simp add: relatedField_def)
  have h6: "?v \<noteq> []" by simp
  have h7: "\<not> isSystemField relatedField" by code_simp
  have h8: "?m \<in> set (guidMatches ?v)" by code_simp
  have c: "cleanGuid ?m = relatedId" by code_simp
  have mem: "relatedId \<in> set [pageId, relatedId]" by simp
  have "cleanGuid ?m \<in> set [pageId, relatedId] \<longrightarrow>
          cleanGuid ?m \<notin> set (snd (extractReferences ?r [pageId, relatedId]))"
    using reference_extraction[OF h1 h2 h3 h4 h5 h6 h7 h8, of "[pageId, relatedId]"] by (rule conjunct1)
  then have a: "relatedId \<notin> set (snd (extractReferences ?r [pageId, relatedId]))"
    using c mem by simp
  have b: "extractReferences ?r [pageId, relatedId]
   = ([(''AAAAAAAA-BBBB-CCCC-DDDD-EEEEEEEEEEEE'',
        [\<lparr> pid = ''11111111-1111-1111-1111-111111111111'', pname = ''Item'', displayName = None,
            ppath = ''/sitecore/content/Home/11111111-1111-1111-1111-111111111111'' \<rparr>]),
       (''F1111111-2222-3333-4444-555555555555'',
        [\<lparr> pid = ''11111111-1111-1111-1111-111111111111'', pname = ''Item'', displayName = None,
            ppath = ''/sitecore/content/Home/11111111-1111-1111-1111-111111111111'' \<rparr>])],
      [''F1111111-2222-3333-4444-555555555555''])"
    by code_simp
  have i: "itemId (itemFor pageId) = Some ''{11111111-1111-1111-1111-111111111111}''"
    by code_simp
  show ?thesis using b a i by (intro conjI)
qed

subsection \<open>The canonical form\<close>

lemma toUpperCase_char_value:
  assumes "97 \<le> (of_char c :: nat)" and "(of_char c :: nat) \<le> 122"
  shows "(of_char (toUpperCase_char c) :: nat) = of_char c - 32"
proof -
  have "(of_char c :: nat) - 32 < 256" using assms by simp
  then show ?thesis using assms by (simp add: toUpperCase_char_def)
qed

lemma toUpperCase_char_other:
  "\<not> (97 \<le> (of_char c :: nat) \<and> (of_char c :: nat) \<le> 122) \<Longrightarrow> toUpperCase_char c = c"
  by (auto simp: toUpperCase_char_def)

lemma toUpperCase_char_idem: "toUpperCase_char (toUpperCase_char c) = toUpperCase_char c"
proof (cases "97 \<le> (of_char c :: nat) \<and> (of_char c :: nat) \<le> 122")
  case True
  then have "(of_char (toUpperCase_char c) :: nat) = of_char c - 32"
    by (simp add: toUpperCase_char_value)
  then have "\<not> (97 \<le> (of_char (toUpperCase_char c) :: nat) \<and> (of_char (toUpperCase_char c) :: nat) \<le> 122)"
    using True by arith
  then show ?thesis by (rule toUpperCase_char_other)
next
  case False
  then show ?thesis by (simp add: toUpperCase_char_other)
qed

lemma toUpperCase_char_brace:
  assumes "c \<noteq> CHR ''{'' \<and> c \<noteq> CHR ''}''"
  shows "toUpperCase_char c \<noteq> CHR ''{'' \<and> toUpperCase_char c \<noteq> CHR ''}''"
proof (cases "97 \<le> (of_char c :: nat) \<and> (of_char c :: nat) \<le> 122")
  case True
  then have v: "(of_char (toUpperCase_char c) :: nat) = of_char c - 32"
    by (simp add: toUpperCase_char_value)
  have "(of_char (toUpperCase_char c) :: nat) \<noteq> 123 \<and> (of_char (toUpperCase_char c) :: nat) \<noteq> 125"
    using v True by arith
  then show ?thesis by auto
next
  case False
  then show ?thesis using assms by (simp add: toUpperCase_char_other)
qed

lemma cleanGuid_idem: "cleanGuid (cleanGuid s) = cleanGuid s"
proof -
  let ?keep = "\<lambda>c. c \<noteq> CHR ''{'' \<and> c \<noteq> CHR ''}''"
  have "filter ?keep (map toUpperCase_char (filter ?keep s)) = map toUpperCase_char (filter ?keep s)"
  proof (induction s)
    case Nil
    then show ?case by simp
  next
    case (Cons a s)
    show ?case
    proof (cases "?keep a")
      case True
      then have "?keep (toUpperCase_char a)" by (rule toUpperCase_char_brace)
      then show ?thesis using True Cons by simp
    next
      case False
      then show ?thesis using Cons by auto
    qed
  qed
  then show ?thesis
    by (simp add: cleanGuid_def toUpperCase_def toUpperCase_char_idem)
qed

subsection \<open>Canonical identifiers in resolved maps\<close>

lemma canonicalValues_objDefine:
  assumes "canonicalValues res" and "\<forall>x. v = Some x \<longrightarrow> cleanGuid x = x"
  shows "canonicalValues (objDefine k v res)"
  unfolding canonicalValues_def
proof (intro ballI allI impI)
  fix entry x assume e: "entry \<in> set (objDefine k v res)" and s: "snd entry = Some x"
  from e have "entry = (k, v) \<or> entry \<in> set res" by (rule objDefine_set_cases)
  then show "cleanGuid x = x"
    using assms s unfolding canonicalValues_def by auto
qed

lemma canonicalValues_objAssign:
  assumes "canonicalValues res" and "\<forall>x. v = Some x \<longrightarrow> cleanGuid x = x"
  shows "canonicalValues (fst (objAssign k v (res, fl)))"
  unfolding canonicalValues_def
proof (intro ballI allI impI)
  fix entry x assume e: "entry \<in> set (fst (objAssign k v (res, fl)))" and s: "snd entry = Some x"
  from e have "entry = (k, v) \<or> entry \<in> set res" by (rule objAssign_set_cases)
  then show "cleanGuid x = x"
    using assms s unfolding canonicalValues_def by auto
qed

lemma lookedUp_canonical: "lookedUp ans i = Some x \<Longrightarrow> cleanGuid x = x"
  by (auto simp: lookedUp_def cleanGuid_idem split: sum.splits option.splits if_splits)

lemma forEach_canonical:
  "canonicalValues res \<Longrightarrow>
     canonicalValues (fst (fst (fold (recordPath d) (enumerate n xs) ((res, fl), m))))"
proof (induction xs arbitrary: n res fl m)
  case Nil
  then show ?case by simp
next
  case (Cons x xs)
  let ?v = "lookedUp (Inr \<lparr> qdata = Some d, qerror = None \<rparr>) n"
  obtain res' fl' where a: "objAssign x ?v (res, fl) = (res', fl')" by (cases "objAssign x ?v (res, fl)")
  have v: "\<forall>y. ?v = Some y \<longrightarrow> cleanGuid y = y" using lookedUp_canonical by blast
  have "canonicalValues (fst (objAssign x ?v (res, fl)))"
    using Cons.prems v by (rule canonicalValues_objAssign)
  then have k: "canonicalValues res'" using a by simp
  have "canonicalValues (fst (fst (fold (recordPath d) (enumerate (Suc n) xs)
            ((res', fl'), if ?v = None then m else Suc m))))"
    using k by (rule Cons.IH)
  then show ?case unfolding forEach_Cons[OF a] .
qed

lemma strategyResult_canonical: "canonicalValues (fst (strategyResult lps resp))"
proof (cases "qdata resp")
  case None
  then show ?thesis by (simp add: strategyResult_def canonicalValues_def)
next
  case (Some d)
  have "canonicalValues ([] :: resolved)" by (simp add: canonicalValues_def)
  then have "canonicalValues (fst (fst (fold (recordPath d) (enumerate 0 lps) (([], False), 0))))"
    by (rule forEach_canonical)
  then show ?thesis by (simp add: strategyResult_data[OF Some])
qed

lemma spread_canonical:
  "canonicalValues a \<Longrightarrow> canonicalValues b \<Longrightarrow> canonicalValues (spread a b)"
  unfolding spread_def
proof (induction b arbitrary: a)
  case Nil
  then show ?case by simp
next
  case (Cons e b)
  obtain k v where e: "e = (k, v)" by (cases e)
  have v: "\<forall>x. v = Some x \<longrightarrow> cleanGuid x = x"
    using Cons.prems(2) e by (auto simp: canonicalValues_def)
  have b: "canonicalValues b" using Cons.prems(2) by (simp add: canonicalValues_def)
  have "canonicalValues (objDefine k v a)" using Cons.prems(1) v by (rule canonicalValues_objDefine)
  then have "canonicalValues (fold (\<lambda>(k, v). objDefine k v) b (objDefine k v a))"
    using b by (rule Cons.IH)
  then show ?case using e by simp
qed

lemma attempt_canonical: "canonicalValues (resultOf (fst (attempt c lps bp ctx lang s w)))"
proof (cases "fst (mutate c w (strategyRequest lps bp ctx lang s))")
  case (Inl e)
  then show ?thesis by (simp add: attempt_outcome resultOf_def canonicalValues_def)
next
  case (Inr resp)
  then show ?thesis using strategyResult_canonical[of lps resp]
    by (simp add: attempt_outcome resultOf_def)
qed

lemma strategyLoop_canonical:
  "canonicalValues acc \<Longrightarrow> canonicalValues (fst (strategyLoop c lps bp ctx lang ss w acc tr))"
proof (induction ss arbitrary: w acc tr)
  case Nil
  then show ?case by simp
next
  case (Cons s ss)
  let ?r = "fst (attempt c lps bp ctx lang s w)"
  have r: "canonicalValues (resultOf ?r)" by (rule attempt_canonical)
  have m: "canonicalValues (mergeFound acc ?r)"
    using Cons.prems r by (simp add: mergeFound_def spread_canonical)
  show ?case
    using r Cons.IH[OF m] by (simp del: strategyLoop.simps add: strategyLoop_step)
qed

lemma resolve_canonical:
  "canonicalValues (fst (resolveLocalDatasourcePaths client lps bp ctx lang w))"
proof -
  have e: "canonicalValues []" by (simp add: canonicalValues_def)
  show ?thesis
  proof (cases client)
    case None
    then show ?thesis using e by (simp add: resolveLocalDatasourcePaths_def)
  next
    case (Some c)
    show ?thesis
    proof (cases "lps = []")
      case True
      then show ?thesis using e Some by (simp add: resolveLocalDatasourcePaths_def)
    next
      case False
      have "canonicalValues (fst (strategyLoop c lps bp ctx lang pathStrategies w [] []))"
        using e by (rule strategyLoop_canonical)
      then show ?thesis using Some False by (simp add: resolveLocalDatasourcePaths_def)
    qed
  qed
qed

subsection \<open>The unified identifier list\<close>

lemma fold_addResolved_shape:
  assumes "\<forall>v\<in>set vs. \<forall>x. v = Some x \<longrightarrow> cleanGuid x = x"
  shows "\<exists>added. fold addResolved vs itemIds = itemIds @ added \<and> distinct added \<and>
                 set added \<inter> set itemIds = {} \<and> (\<forall>i\<in>set added. cleanGuid i = i)"
  using assms
proof (induction vs arbitrary: itemIds)
  case Nil
  then show ?case by simp
next
  case (Cons v vs)
  have rest: "\<forall>v\<in>set vs. \<forall>x. v = Some x \<longrightarrow> cleanGuid x = x" using Cons.prems by simp
  show ?case
  proof (cases "\<exists>r. v = Some r \<and> r \<noteq> [] \<and> r \<notin> set itemIds")
    case True
    then obtain r where r: "v = Some r" "r \<noteq> []" "r \<notin> set itemIds" by blast
    have cr: "cleanGuid r = r" using Cons.prems r(1) by simp
    obtain added where a: "fold addResolved vs (itemIds @ [r]) = (itemIds @ [r]) @ added"
      "distinct added" "set added \<inter> set (itemIds @ [r]) = {}" "\<forall>i\<in>set added. cleanGuid i = i"
      using Cons.IH[OF rest, of "itemIds @ [r]"] by blast
    have step: "addResolved v itemIds = itemIds @ [r]" using r by (simp add: addResolved_def)
    have "fold addResolved (v # vs) itemIds = itemIds @ (r # added)" using step a(1) by simp
    moreover have "distinct (r # added)" using a(2,3) by auto
    moreover have "set (r # added) \<inter> set itemIds = {}" using a(3) r(3) by auto
    moreover have "\<forall>i\<in>set (r # added). cleanGuid i = i" using a(4) cr by simp
    ultimately show ?thesis by blast
  next
    case False
    then have step: "addResolved v itemIds = itemIds"
      by (auto simp: addResolved_def split: option.splits)
    show ?thesis using Cons.IH[OF rest, of itemIds] step by simp
  qed
qed

lemma resolveStage_shape:
  "\<exists>added. fst (resolveStage c lps cpp ctx lang itemIds w) = itemIds @ added \<and> distinct added \<and>
           set added \<inter> set itemIds = {} \<and> (\<forall>i\<in>set added. cleanGuid i = i)"
proof (cases "lps \<noteq> [] \<and> truthy ctx")
  case True
  obtain res w' issued where r: "resolveLocalDatasourcePaths (Some c) lps cpp (the ctx) lang w = (res, w', issued)"
    by (cases "resolveLocalDatasourcePaths (Some c) lps cpp (the ctx) lang w") auto
  have "canonicalValues res"
    using resolve_canonical[of "Some c" lps cpp "the ctx" lang w] r by simp
  then have "\<forall>v\<in>set (map snd res). \<forall>x. v = Some x \<longrightarrow> cleanGuid x = x"
    by (auto simp: canonicalValues_def)
  then have "\<exists>added. fold addResolved (map snd res) itemIds = itemIds @ added \<and> distinct added \<and>
                 set added \<inter> set itemIds = {} \<and> (\<forall>i\<in>set added. cleanGuid i = i)"
    by (rule fold_addResolved_shape)
  then show ?thesis using True r by (simp add: resolveStage_def)
next
  case False
  then have "fst (resolveStage c lps cpp ctx lang itemIds w) = itemIds"
    by (auto simp: resolveStage_def)
  then show ?thesis by simp
qed

lemma recordMatch_keeps_canonical:
  "queueCanonical st \<Longrightarrow> queueCanonical (recordMatch parent itemIds m st)"
proof -
  assume a: "queueCanonical st"
  obtain refs nested where st: "st = (refs, nested)" by (cases st)
  show ?thesis using a unfolding queueCanonical_def st recordMatch_queue
    by (auto simp: cleanGuid_idem)
qed

lemma candidates_shape:
  "distinct (snd (extractReferences a itemIds)) \<and>
   set (snd (extractReferences a itemIds)) \<inter> set itemIds = {} \<and>
   (\<forall>i\<in>set (snd (extractReferences a itemIds)). cleanGuid i = i)"
proof -
  have q: "queueClean itemIds (extractReferences a itemIds)"
  proof (rule extractReferences_preserves[where P="queueClean itemIds"])
    show "queueClean itemIds ([], [])" by (simp add: queueClean_def)
  next
    fix parent' m' st' assume "queueClean itemIds st'"
    then show "queueClean itemIds (recordMatch parent' itemIds m' st')" by (rule recordMatch_keeps_queue)
  qed
  have c: "queueCanonical (extractReferences a itemIds)"
  proof (rule extractReferences_preserves[where P=queueCanonical])
    show "queueCanonical ([], [])" by (simp add: queueCanonical_def)
  next
    fix parent' m' st' assume "queueCanonical st'"
    then show "queueCanonical (recordMatch parent' itemIds m' st')" by (rule recordMatch_keeps_canonical)
  qed
  show ?thesis using q c by (simp add: queueClean_def queueCanonical_def)
qed

lemma filterSystemItems_canonical: "\<forall>i\<in>set (filterSystemItems r). cleanGuid i = i"
  by (auto simp: filterSystemItems_def fold_keepValid_set cleanGuid_idem split: option.splits)


text \<open>
  When the validation response answers the requested candidates, the validated identifiers
  are among the candidates and pairwise distinct.
\<close>

lemma answersRequested_valid:
  assumes ans: "answersRequested cands r" and dc: "distinct cands"
  shows "set (filterSystemItems r) \<subseteq> set cands \<and> distinct (filterSystemItems r)"
proof (cases "qdata r")
  case None
  then show ?thesis by (simp add: filterSystemItems_def)
next
  case (Some d)
  let ?P = "\<lambda>entry :: aliasKey \<times> item option.
              \<not> isSystemItem (nestedPath (snd entry)) \<and> nestedPath (snd entry) \<noteq> []"
  let ?f = "\<lambda>entry :: aliasKey \<times> item option. cleanGuid (nestedId (snd entry))"
  have keys: "distinct (map fst d)" using ans Some by (simp add: answersRequested_def)
  have echo: "\<exists>index. fst entry = ItemAlias index \<and> index < length cands \<and> ?f entry = cands ! index"
    if "entry \<in> set d" and "?P entry" for entry
  proof -
    have "case fst entry of
            ItemAlias index \<Rightarrow> index < length cands \<and> ?f entry = cands ! index
          | _ \<Rightarrow> False"
      using ans Some that by (simp add: answersRequested_def)
    then show ?thesis by (cases "fst entry") simp_all
  qed
  have valid: "filterSystemItems r = map ?f (filter ?P d)"
    using Some by (simp add: filterSystemItems_def fold_keepValid_eq)
  have sub: "set (map ?f (filter ?P d)) \<subseteq> set cands"
  proof
    fix g assume "g \<in> set (map ?f (filter ?P d))"
    then obtain entry where e: "entry \<in> set d" "?P entry" "g = ?f entry" by auto
    obtain index where "index < length cands" "?f entry = cands ! index"
      using echo[OF e(1,2)] by blast
    then show "g \<in> set cands" using e(3) by simp
  qed
  have dd: "distinct d" using keys by (rule distinct_map[THEN iffD1, THEN conjunct1])
  have injk: "inj_on fst (set d)" using keys by (rule distinct_map[THEN iffD1, THEN conjunct2])
  have inj: "inj_on ?f (set (filter ?P d))"
  proof (rule inj_onI)
    fix e1 e2
    assume m1: "e1 \<in> set (filter ?P d)" and m2: "e2 \<in> set (filter ?P d)" and eq: "?f e1 = ?f e2"
    have p1: "e1 \<in> set d" "?P e1" using m1 by simp_all
    have p2: "e2 \<in> set d" "?P e2" using m2 by simp_all
    obtain i1 where i1: "fst e1 = ItemAlias i1" "i1 < length cands" "?f e1 = cands ! i1"
      using echo[OF p1] by blast
    obtain i2 where i2: "fst e2 = ItemAlias i2" "i2 < length cands" "?f e2 = cands ! i2"
      using echo[OF p2] by blast
    have "cands ! i1 = cands ! i2" using eq i1(3) i2(3) by simp
    then have "i1 = i2" using dc i1(2) i2(2) by (simp add: nth_eq_iff_index_eq)
    then have "fst e1 = fst e2" using i1(1) i2(1) by simp
    then show "e1 = e2" using injk p1(1) p2(1) by (simp add: inj_on_def)
  qed
  have "distinct (filter ?P d)" using dd by simp
  then have "distinct (map ?f (filter ?P d))" using inj by (simp add: distinct_map)
  then show ?thesis using sub valid by simp
qed

text \<open>
  Claim C7 as stated fails, in two ways. An explicit list that holds the same braced,
  lower-case identifier twice goes through the cycle unchanged, so the unified list has a
  duplicate and holds identifiers that are not canonical. And with a single canonical
  identifier given, an item that names itself in another spelling is queued as a candidate,
  the validation lookup returns it under its own id, and that id is appended without a
  membership test: the unified list holds it twice.
\<close>

theorem unified_ids_override_counterexample:
  "fst (gatherCycle exampleEnv exampleClient (Some [''{x1}'', ''{x1}'']) 0)
     = Inr \<lparr> cdAuthoringResult = \<lparr> qdata = Some [], qerror = None \<rparr>,
             cdLiveResult = \<lparr> qdata = Some [], qerror = None \<rparr>,
             cdItemIds = [''{x1}'', ''{x1}''],
             cdCurrentItemId = Some ''{x1}'',
             cdReferencedByMap = [] \<rparr> \<and>
   \<not> distinct [''{x1}'', ''{x1}''] \<and> cleanGuid ''{x1}'' \<noteq> ''{x1}'' \<and>
   map_sum id cdItemIds (fst (gatherCycle exampleEnv compactClient (Some [compactId]) 0))
     = Inr [compactId, compactId] \<and>
   cleanGuid compactId = compactId \<and> distinct [compactId] \<and> \<not> distinct [compactId, compactId] \<and>
   snd (extractReferences
          (fst (getItemsFromAuthoring (Some compactClient) [compactId] None ''en'' 1)) [compactId])
     = [''AAAAAAAA-BBBB-CCCC-DDDD-EEEEEEEEEEEE'']"
  by code_simp

text \<open>
  Claim C7, amended. With the values the cycle computes named (the original list, the main
  list after the resolved-local step, the queued candidates, the validated identifiers): the
  unified list is the main list followed by the validated identifiers, and the cycle does
  compute it when the formatting helper of the live lookup returns. The main list is the
  original list followed by resolved identifiers that are canonical, distinct and not in the
  original list; the candidates are canonical, distinct and not in the main list; the
  validated identifiers are canonical. The original identifiers are taken as given and the
  validated identifiers are appended without a membership test. So, provided the original
  identifiers are canonical and pairwise distinct and the validation lookup answers the
  requested candidates, every identifier of the unified list is canonical and none appears
  twice.
\<close>

theorem unified_identifier_list:
  assumes init: "initialIds env c specificItemIds w = (Inr (itemIds0, cur, lps, cpp, lang), w1, t1)"
    and ctx: "contextIdStage c w1 = (ctx, w2)"
    and res: "resolveStage c lps cpp ctx lang itemIds0 w2 = (main, w3, t3)"
    and fan: "fanOut env (Some c) main ctx lang w3 = (Inr (a, l), w5, t5)"
    and ext: "extractReferences a main = (refs, cands)"
    and val: "valid = (if cands = [] then []
                       else filterSystemItems (fst (getItemsFromAuthoring (Some c) cands ctx lang w5)))"
  shows "(\<forall>cd w' calls. gatherCycle env c specificItemIds w = (Inr cd, w', calls) \<longrightarrow>
            cdItemIds cd = main @ valid) \<and>
         ((\<forall>g. \<exists>s. formatGuidWithHyphens env g = Inr s) \<longrightarrow>
            (\<exists>cd w' calls. gatherCycle env c specificItemIds w = (Inr cd, w', calls))) \<and>
         (\<exists>added. main = itemIds0 @ added \<and> distinct added \<and> set added \<inter> set itemIds0 = {} \<and>
                   (\<forall>i\<in>set added. cleanGuid i = i)) \<and>
         distinct cands \<and> set cands \<inter> set main = {} \<and> (\<forall>i\<in>set cands. cleanGuid i = i) \<and>
         (\<forall>i\<in>set valid. cleanGuid i = i) \<and>
         ((\<forall>i\<in>set itemIds0. cleanGuid i = i) \<and> distinct itemIds0 \<and>
          answersRequested cands (fst (getItemsFromAuthoring (Some c) cands ctx lang w5)) \<longrightarrow>
            (\<forall>i\<in>set (main @ valid). cleanGuid i = i) \<and> distinct (main @ valid))"
proof -
  have unified: "\<forall>cd w' calls. gatherCycle env c specificItemIds w = (Inr cd, w', calls) \<longrightarrow>
            cdItemIds cd = main @ valid"
  proof (intro allI impI)
    fix cd w' calls
    assume g: "gatherCycle env c specificItemIds w = (Inr cd, w', calls)"
    obtain x w6 t6 where n: "nestedStage env c ctx lang main cands a l w5 = (x, w6, t6)"
      by (cases "nestedStage env c ctx lang main cands a l w5") auto
    show "cdItemIds cd = main @ valid"
    proof (cases x)
      case (Inl e)
      have "gatherCycle env c specificItemIds w = (Inl e, w6, t1 @ [ApplicationContextQuery] @ t3 @ t5 @ t6)"
        using init ctx res fan ext n Inl by (simp add: gatherCycle_def)
      then show ?thesis using g by simp
    next
      case (Inr y)
      obtain a' l' ids'' where y: "y = (a', l', ids'')" by (cases y)
      have n6: "nestedStage env c ctx lang main cands a l w5 = (Inr (a', l', ids''), w6, t6)"
        using n Inr y by simp
      have "ids'' = main @ (if cands = [] then []
                else filterSystemItems (fst (getItemsFromAuthoring (Some c) cands ctx lang w5))) \<and>
            (qdata l = None \<longrightarrow> l' = l)"
        using n6 by (rule nestedStage_shape)
      then have ids: "ids'' = main @ valid" using val by simp
      have "gatherCycle env c specificItemIds w =
           (Inr \<lparr> cdAuthoringResult = a', cdLiveResult = l', cdItemIds = ids'',
                  cdCurrentItemId = cur, cdReferencedByMap = refs \<rparr>,
            w6, t1 @ [ApplicationContextQuery] @ t3 @ t5 @ t6)"
        using init ctx res fan ext n6 by (rule gatherCycle_stages)
      then show ?thesis using g ids by simp
    qed
  qed
  have returns: "(\<forall>g. \<exists>s. formatGuidWithHyphens env g = Inr s) \<longrightarrow>
            (\<exists>cd w' calls. gatherCycle env c specificItemIds w = (Inr cd, w', calls))"
  proof
    assume tot: "\<forall>g. \<exists>s. formatGuidWithHyphens env g = Inr s"
    have "\<exists>a' l' ids'' w' t.
            nestedStage env c ctx lang main cands a l w5 = (Inr (a', l', ids''), w', t)"
      using tot by (rule nestedStage_returns)
    then obtain a' l' ids'' w6 t6 where
      n6: "nestedStage env c ctx lang main cands a l w5 = (Inr (a', l', ids''), w6, t6)"
      by blast
    have "gatherCycle env c specificItemIds w =
           (Inr \<lparr> cdAuthoringResult = a', cdLiveResult = l', cdItemIds = ids'',
                  cdCurrentItemId = cur, cdReferencedByMap = refs \<rparr>,
            w6, t1 @ [ApplicationContextQuery] @ t3 @ t5 @ t6)"
      using init ctx res fan ext n6 by (rule gatherCycle_stages)
    then show "\<exists>cd w' calls. gatherCycle env c specificItemIds w = (Inr cd, w', calls)"
      by (intro exI)
  qed
  obtain added where ad: "main = itemIds0 @ added" "distinct added" "set added \<inter> set itemIds0 = {}"
      "\<forall>i\<in>set added. cleanGuid i = i"
    using resolveStage_shape[of c lps cpp ctx lang itemIds0 w2] res by auto
  have cs: "distinct cands \<and> set cands \<inter> set main = {} \<and> (\<forall>i\<in>set cands. cleanGuid i = i)"
    using candidates_shape[of a main] ext by simp
  have vc: "\<forall>i\<in>set valid. cleanGuid i = i"
    using val filterSystemItems_canonical by simp
  have fin: "(\<forall>i\<in>set itemIds0. cleanGuid i = i) \<and> distinct itemIds0 \<and>
          answersRequested cands (fst (getItemsFromAuthoring (Some c) cands ctx lang w5)) \<longrightarrow>
            (\<forall>i\<in>set (main @ valid). cleanGuid i = i) \<and> distinct (main @ valid)"
  proof
    assume h: "(\<forall>i\<in>set itemIds0. cleanGuid i = i) \<and> distinct itemIds0 \<and>
          answersRequested cands (fst (getItemsFromAuthoring (Some c) cands ctx lang w5))"
    have can0: "\<forall>i\<in>set itemIds0. cleanGuid i = i" using h by simp
    have d0: "distinct itemIds0" using h by simp
    have ans: "answersRequested cands (fst (getItemsFromAuthoring (Some c) cands ctx lang w5))"
      using h by simp
    have dcands: "distinct cands" using cs by simp
    have v: "set valid \<subseteq> set cands \<and> distinct valid"
    proof (cases "cands = []")
      case True
      then show ?thesis using val by simp
    next
      case False
      then show ?thesis using val answersRequested_valid[OF ans dcands] by simp
    qed
    have canon: "\<forall>i\<in>set (main @ valid). cleanGuid i = i"
      using can0 ad(1,4) vc by auto
    have "distinct main" using ad d0 by auto
    moreover have "set main \<inter> set valid = {}" using cs v by auto
    ultimately have "distinct (main @ valid)" using v by simp
    then show "(\<forall>i\<in>set (main @ valid). cleanGuid i = i) \<and> distinct (main @ valid)"
      using canon by simp
  qed
  have shape: "\<exists>added. main = itemIds0 @ added \<and> distinct added \<and> set added \<inter> set itemIds0 = {} \<and>
                   (\<forall>i\<in>set added. cleanGuid i = i)"
    using ad by blast
  show ?thesis using unified returns shape cs vc fin by (intro conjI) simp_all
qed

text \<open>
  A run for C7: from the page's identifier the cycle discovers two nested identifiers, which
  the validation lookup returns under their own ids; the identifiers of the unified list are
  canonical and no one appears twice.
\<close>

theorem unified_identifier_list_witness:
  "map_sum id cdItemIds (fst (gatherCycle exampleEnv echoClient (Some [pageId]) 0))
     = Inr [''11111111-1111-1111-1111-111111111111'', ''AAAAAAAA-BBBB-CCCC-DDDD-EEEEEEEEEEEE'',
            ''F1111111-2222-3333-4444-555555555555''] \<and>
   distinct [pageId, relatedId, faqId] \<and>
   cleanGuid pageId = pageId \<and> cleanGuid relatedId = relatedId \<and> cleanGuid faqId = faqId"
proof -
  let ?fan = "fanOut exampleEnv (Some echoClient) [pageId] None ''en'' 1"
  let ?a = "\<lparr> qdata = Some [(ItemAlias 0, Some (itemFor pageId))], qerror = None \<rparr>"
  let ?l = "\<lparr> qdata = Some [], qerror = None \<rparr> :: queryResult"
  let ?refs = "fst (extractReferences ?a [pageId])"
  let ?cands = "snd (extractReferences ?a [pageId])"
  let ?valid = "if ?cands = [] then []
                else filterSystemItems (fst (getItemsFromAuthoring (Some echoClient) ?cands None ''en'' 3))"
  have init: "initialIds exampleEnv echoClient (Some [pageId]) 0
                = (Inr ([pageId], Some pageId, [], [], ''en''), 0, [])"
    by (simp add: initialIds_def)
  have ctx: "contextIdStage echoClient 0 = (None, 1)" by code_simp
  have res: "resolveStage echoClient [] [] None ''en'' [pageId] 1 = ([pageId], 1, [])"
    by (simp add: resolveStage_def)
  have fan: "?fan = (Inr (?a, ?l), 3, snd (snd ?fan))" by code_simp
  have ext: "extractReferences ?a [pageId] = (?refs, ?cands)" by simp
  have val: "?valid = ?valid" by (rule refl)
  note main = unified_identifier_list[OF init ctx res fan ext val]
  have cands: "?cands = [relatedId, faqId]" by code_simp
  have valid: "?valid = [relatedId, faqId]" by code_simp
  have g: "\<exists>cd w' calls. gatherCycle exampleEnv echoClient (Some [pageId]) 0 = (Inr cd, w', calls)"
  proof -
    have "\<forall>g. \<exists>s. formatGuidWithHyphens exampleEnv g = Inr s" by (simp add: exampleEnv_def)
    then show ?thesis using main[THEN conjunct2, THEN conjunct1] by (rule rev_mp)
  qed
  then obtain cd w' calls where
    run: "gatherCycle exampleEnv echoClient (Some [pageId]) 0 = (Inr cd, w', calls)" by blast
  have "cdItemIds cd = [pageId] @ ?valid"
    using mp[OF spec[OF spec[OF spec[OF main[THEN conjunct1]]]] run] .
  then have ids: "map_sum id cdItemIds (fst (gatherCycle exampleEnv echoClient (Some [pageId]) 0))
                    = Inr [pageId, relatedId, faqId]"
    using run valid by simp
  have hyp: "(\<forall>i\<in>set [pageId]. cleanGuid i = i) \<and> distinct [pageId] \<and>
             answersRequested ?cands (fst (getItemsFromAuthoring (Some echoClient) ?cands None ''en'' 3))"
    unfolding cands by code_simp
  have "(\<forall>i\<in>set ([pageId] @ ?valid). cleanGuid i = i) \<and> distinct ([pageId] @ ?valid)"
    using main[THEN conjunct2, THEN conjunct2, THEN conjunct2, THEN conjunct2, THEN conjunct2,
               THEN conjunct2, THEN conjunct2] hyp
    by (rule mp)
  then have d: "(\<forall>i\<in>set [pageId, relatedId, faqId]. cleanGuid i = i) \<and> distinct [pageId, relatedId, faqId]"
    unfolding valid by simp
  have e: "pageId = ''11111111-1111-1111-1111-111111111111'' \<and>
           relatedId = ''AAAAAAAA-BBBB-CCCC-DDDD-EEEEEEEEEEEE'' \<and>
           faqId = ''F1111111-2222-3333-4444-555555555555''"
    by (simp add: pageId_def relatedId_def faqId_def)
  show ?thesis using ids d e by simp
qed

end
